theory Spec2Isabelle
  imports Complex_Main
begin

section \<open>Numbers and the general purpose math helpers\<close>

text \<open>
  A JavaScript number is modelled as a real: arithmetic is exact, there is no rounding, no
  overflow and no NaN. The one value the reals cannot hold is the result of a division by
  zero (JavaScript yields an infinity or NaN there and carries on), so every division whose
  divisor the source does not guard is written with \<open>js_div\<close>, and \<open>None\<close> stands for
  "the JavaScript value is not a finite number". Where the rounding of the doubles decides
  what the program does, a function is given a second time with every operation rounded
  (\<open>binary64\<close> below, and the functions with the suffix \<open>64\<close>).
\<close>

definition js_div :: "real \<Rightarrow> real \<Rightarrow> real option" where
  "js_div a b = (if b = 0 then None else Some (a / b))"

text \<open>\<^verbatim>\<open>const abs = (a)=> a < 0 ? -a : a;\<close>\<close>

definition abs_js :: "real \<Rightarrow> real" where
  "abs_js a = (if a < 0 then - a else a)"

text \<open>\<^verbatim>\<open>const min = (a, b)=> a < b ?  a : b;\<close> and \<^verbatim>\<open>const max = (a, b)=> a > b ?  a : b;\<close>\<close>

definition min_js :: "real \<Rightarrow> real \<Rightarrow> real" where
  "min_js a b = (if a < b then a else b)"

definition max_js :: "real \<Rightarrow> real \<Rightarrow> real" where
  "max_js a b = (if a > b then a else b)"

text \<open>\<^verbatim>\<open>const sign = (a)=> a < 0 ? -1 : 1;\<close>\<close>

definition sign_js :: "real \<Rightarrow> real" where
  "sign_js a = (if a < 0 then - 1 else 1)"

text \<open>\<^verbatim>\<open>const clamp = (v, min=0, max=1)=> v < min ? min : v > max ? max : v;\<close>
  The two defaults are the arguments of \<open>clamp01\<close>.\<close>

definition clamp :: "real \<Rightarrow> real \<Rightarrow> real \<Rightarrow> real" where
  "clamp v lo hi = (if v < lo then lo else if v > hi then hi else v)"

definition clamp01 :: "real \<Rightarrow> real" where
  "clamp01 v = clamp v 0 1"

text \<open>\<^verbatim>\<open>const lerp = (p, min=0, max=1)=> min + clamp(p) * (max-min);\<close>\<close>

definition lerp :: "real \<Rightarrow> real \<Rightarrow> real \<Rightarrow> real" where
  "lerp p lo hi = lo + clamp01 p * (hi - lo)"

text \<open>The conversion \<^verbatim>\<open>v|0\<close>: truncation towards zero, then wrap-around into the signed
  32-bit range.\<close>

definition js_trunc :: "real \<Rightarrow> int" where
  "js_trunc v = (if v < 0 then \<lceil>v\<rceil> else \<lfloor>v\<rfloor>)"

definition toInt32 :: "real \<Rightarrow> int" where
  "toInt32 v = (js_trunc v + 2 ^ 31) mod 2 ^ 32 - 2 ^ 31"

section \<open>Vector2 as a value\<close>

record vector2 =
  xv :: real
  yv :: real

text \<open>\<^verbatim>\<open>new Vector2(x, y)\<close>; both arguments default to 0.\<close>

definition Vector2 :: "real \<Rightarrow> real \<Rightarrow> vector2" where
  "Vector2 a b = \<lparr>xv = a, yv = b\<rparr>"

text \<open>\<^verbatim>\<open>isOverlapping\<close>: the bitwise \<^verbatim>\<open>&\<close> of two comparisons is truthy exactly when both hold.\<close>

definition isOverlapping :: "vector2 \<Rightarrow> vector2 \<Rightarrow> vector2 \<Rightarrow> vector2 \<Rightarrow> bool" where
  "isOverlapping pA sA pB sB =
     (abs_js (xv pA - xv pB) * 2 < xv sA + xv sB \<and> abs_js (yv pA - yv pB) * 2 < yv sA + yv sB)"

text \<open>The contents of the vector each method of the class builds.\<close>

definition copy :: "vector2 \<Rightarrow> vector2" where
  "copy this = Vector2 (xv this) (yv this)"

definition add :: "vector2 \<Rightarrow> vector2 \<Rightarrow> vector2" where
  "add this v = Vector2 (xv this + xv v) (yv this + yv v)"

definition subtract :: "vector2 \<Rightarrow> vector2 \<Rightarrow> vector2" where
  "subtract this v = Vector2 (xv this - xv v) (yv this - yv v)"

definition multiply :: "vector2 \<Rightarrow> vector2 \<Rightarrow> vector2" where
  "multiply this v = Vector2 (xv this * xv v) (yv this * yv v)"

text \<open>\<^verbatim>\<open>divide(v)\<close> divides by both components of \<open>v\<close>, unguarded.\<close>

definition divide_v :: "vector2 \<Rightarrow> vector2 \<Rightarrow> vector2 option" where
  "divide_v this v =
     (case (js_div (xv this) (xv v), js_div (yv this) (yv v)) of
        (Some a, Some b) \<Rightarrow> Some (Vector2 a b)
      | _ \<Rightarrow> None)"

definition scale :: "vector2 \<Rightarrow> real \<Rightarrow> vector2" where
  "scale this s = Vector2 (xv this * s) (yv this * s)"

definition lengthSquared :: "vector2 \<Rightarrow> real" where
  "lengthSquared this = (xv this)\<^sup>2 + (yv this)\<^sup>2"

text \<open>\<^verbatim>\<open>length() { return this.lengthSquared()**.5; }\<close>\<close>

definition length_v :: "vector2 \<Rightarrow> real" where
  "length_v this = sqrt (lengthSquared this)"

text \<open>\<^verbatim>\<open>normalize(length=1) { const l = this.length(); return l ? this.scale(length/l) : new Vector2(length); }\<close>
  The division is guarded by the truthiness of \<open>l\<close>; \<^verbatim>\<open>new Vector2(length)\<close> leaves the
  second component at its default 0. Here \<open>l\<close> is the exact length, which is 0 for the zero
  vector only; the length the program computes is \<open>length64\<close> below.\<close>

definition normalize_v :: "vector2 \<Rightarrow> real \<Rightarrow> vector2" where
  "normalize_v this len = (let l = length_v this in if l \<noteq> 0 then scale this (len / l) else Vector2 len 0)"

definition rotate_v :: "vector2 \<Rightarrow> real \<Rightarrow> vector2" where
  "rotate_v this a = (let c = cos a; s = sin a in
     Vector2 (xv this * c - yv this * s) (xv this * s + yv this * c))"

definition invert :: "vector2 \<Rightarrow> vector2" where
  "invert this = Vector2 (yv this) (- xv this)"

definition floor_v :: "vector2 \<Rightarrow> vector2" where
  "floor_v this = Vector2 (of_int \<lfloor>xv this\<rfloor>) (of_int \<lfloor>yv this\<rfloor>)"

definition lerp_v :: "vector2 \<Rightarrow> vector2 \<Rightarrow> real \<Rightarrow> vector2" where
  "lerp_v this v p = add this (scale (subtract v this) (clamp01 p))"

subsection \<open>The length of a vector in doubles\<close>

text \<open>
  A double is a real of the form \<open>m * 2^(e - 52)\<close> with an integer \<open>m\<close>, \<open>\<bar>m\<bar> < 2^53\<close>, and
  \<open>-1022 \<le> e \<le> 1023\<close>. An operation of JavaScript on doubles yields the exact result rounded
  to the nearest double, to the one with the even \<open>m\<close> when two are equally near.
\<close>

definition round_even :: "real \<Rightarrow> int" where
  "round_even x =
     (let f = \<lfloor>x\<rfloor>; d = x - of_int f
      in if d < 1/2 then f else if 1/2 < d then f + 1 else if even f then f else f + 1)"

text \<open>The double nearest to a real; \<open>None\<close> when the rounded value is too large for a finite
  double (JavaScript yields an infinity).\<close>

definition binary64 :: "real \<Rightarrow> real option" where
  "binary64 x =
     (if x = 0 then Some 0
      else (let e = max \<lfloor>log 2 \<bar>x\<bar>\<rfloor> (- 1022);
                u = 2 powr (of_int e - 52);
                y = of_int (round_even (x / u)) * u
            in if 2 powr 1024 \<le> \<bar>y\<bar> then None else Some y))"

text \<open>\<^verbatim>\<open>lengthSquared() { return this.x**2 + this.y**2; }\<close>, two squares and a sum, each
  rounded.\<close>

definition lengthSquared64 :: "vector2 \<Rightarrow> real option" where
  "lengthSquared64 this =
     (case (binary64 (xv this * xv this), binary64 (yv this * yv this)) of
        (Some a, Some b) \<Rightarrow> binary64 (a + b)
      | _ \<Rightarrow> None)"

text \<open>\<^verbatim>\<open>length() { return this.lengthSquared()**.5; }\<close>\<close>

definition length64 :: "vector2 \<Rightarrow> real option" where
  "length64 this = (case lengthSquared64 this of Some s \<Rightarrow> binary64 (sqrt s) | None \<Rightarrow> None)"

text \<open>\<^verbatim>\<open>scale(s) { return new Vector2(this.x * s, this.y * s); }\<close>\<close>

definition scale64 :: "vector2 \<Rightarrow> real \<Rightarrow> vector2 option" where
  "scale64 this s =
     (case (binary64 (xv this * s), binary64 (yv this * s)) of
        (Some a, Some b) \<Rightarrow> Some (Vector2 a b)
      | _ \<Rightarrow> None)"

text \<open>\<^verbatim>\<open>normalize(length=1) { const l = this.length(); return l ? this.scale(length/l) : new Vector2(length); }\<close>
  for a receiver and a length that are doubles; \<open>None\<close> when an intermediate value is not a
  finite number.\<close>

definition normalize64 :: "vector2 \<Rightarrow> real \<Rightarrow> vector2 option" where
  "normalize64 this len =
     (case length64 this of
        None \<Rightarrow> None
      | Some l \<Rightarrow>
          if l \<noteq> 0 then (case binary64 (len / l) of Some s \<Rightarrow> scale64 this s | None \<Rightarrow> None)
          else Some (Vector2 len 0))"

section \<open>EngineObject\<close>

type_synonym ref = nat

text \<open>\<open>groundObject\<close> is undefined, 0 or false (all falsy: \<open>NoGround\<close>), the value \<^verbatim>\<open>true\<close>
  the tile resolver stores (\<open>GroundTile\<close>), or another object (\<open>GroundObject\<close>).\<close>

datatype ground = NoGround | GroundTile | GroundObject ref

record body =
  pos :: vector2
  sizeV :: vector2
  angle :: real
  mass :: real
  damping :: real
  angleDamping :: real
  elasticity :: real
  friction :: real
  gravityScale :: real
  velocity :: vector2
  angleVelocity :: real
  children :: "ref list"
  collideTiles :: bool
  collideSolidObjects :: bool
  isSolid :: bool
  destroyed :: bool
  parent :: "ref option"
  groundObject :: ground
  localPos :: vector2
  localAngle :: real
  mirror :: bool

text \<open>\<^verbatim>\<open>applyAcceleration(a) { if (this.mass) this.velocity = this.velocity.add(a); }\<close>
  The argument is \<open>None\<close> when the caller computed it from a division by zero.\<close>

definition applyAcceleration :: "body \<Rightarrow> vector2 option \<Rightarrow> body option" where
  "applyAcceleration this a =
     (if mass this \<noteq> 0
      then (case a of Some v \<Rightarrow> Some (this\<lparr>velocity := add (velocity this) v\<rparr>) | None \<Rightarrow> None)
      else Some this)"

text \<open>\<^verbatim>\<open>applyForce(force) { this.applyAcceleration(force.scale(1/this.mass)); }\<close>\<close>

definition applyForce :: "body \<Rightarrow> vector2 \<Rightarrow> body option" where
  "applyForce this force = applyAcceleration this (map_option (scale force) (js_div 1 (mass this)))"

text \<open>\<^verbatim>\<open>getMirrorSign() { return this.mirror ? -1 : 1; }\<close>\<close>

definition getMirrorSign :: "body \<Rightarrow> real" where
  "getMirrorSign this = (if mirror this then - 1 else 1)"

text \<open>\<^verbatim>\<open>collideWithObject(o) { return 1; }\<close>\<close>

definition collideWithObject :: "body \<Rightarrow> ref \<Rightarrow> bool" where
  "collideWithObject this other = True"

section \<open>The engine around an object\<close>

text \<open>
  The globals \<open>update\<close> reads are not declared in this file of the repository; they are
  parameters of the model. \<open>tileCollisionTest\<close> is the tile layer's query: a predicate of a
  position, a size and the object that asks (the reference the source passes).
  \<open>mathRandom\<close> lists the values \<^verbatim>\<open>Math.random()\<close> returns, in the order of the calls.
\<close>

record env =
  gravity :: real
  objectMaxSpeed :: real
  enablePhysicsSolver :: bool
  tileCollisionTest :: "vector2 \<Rightarrow> vector2 \<Rightarrow> ref \<Rightarrow> bool"
  mathRandom :: "nat \<Rightarrow> real"

text \<open>
  Objects are shared and mutated through references, so they live in a store: reference
  \<open>r\<close> is the object \<open>heap w ! r\<close>. The vectors an object holds are values of its record.
\<close>

record world =
  heap :: "body list"
  engineObjectsCollide :: "ref list"
  randomCalls :: nat

text \<open>\<^verbatim>\<open>const rand = (a=1, b=0)=> b + (a-b)*Math.random();\<close>\<close>

definition rand :: "env \<Rightarrow> world \<Rightarrow> real \<Rightarrow> real \<Rightarrow> real \<times> world" where
  "rand e w a b = (b + (a - b) * mathRandom e (randomCalls w), w\<lparr>randomCalls := Suc (randomCalls w)\<rparr>)"

text \<open>The contents \<^verbatim>\<open>setAngle(a, length)\<close> writes into its receiver.\<close>

definition setAngle_v :: "real \<Rightarrow> real \<Rightarrow> vector2" where
  "setAngle_v a len = Vector2 (len * sin a) (len * cos a)"

text \<open>\<^verbatim>\<open>const randVector = (length=1)=> new Vector2().setAngle(rand(2*PI), length);\<close>\<close>

definition randVector :: "env \<Rightarrow> world \<Rightarrow> real \<Rightarrow> vector2 \<times> world" where
  "randVector e w len = (case rand e w (2 * pi) 0 of (a, w') \<Rightarrow> (setAngle_v a len, w'))"

subsection \<open>Integration\<close>

text \<open>The head of \<^verbatim>\<open>update()\<close> for an object without parent: the speed clamp, damping,
  gravity and the move.\<close>

definition integrate :: "env \<Rightarrow> body \<Rightarrow> body" where
  "integrate e this =
     (let t1 = this\<lparr>velocity := (velocity this)\<lparr>xv := clamp (xv (velocity this)) (- objectMaxSpeed e) (objectMaxSpeed e)\<rparr>\<rparr>;
          t2 = t1\<lparr>velocity := (velocity t1)\<lparr>yv := clamp (yv (velocity t1)) (- objectMaxSpeed e) (objectMaxSpeed e)\<rparr>\<rparr>;
          t3 = t2\<lparr>velocity := (velocity t2)\<lparr>xv := damping t2 * xv (velocity t2)\<rparr>\<rparr>;
          t4 = t3\<lparr>pos := (pos t3)\<lparr>xv := xv (pos t3) + xv (velocity t3)\<rparr>\<rparr>;
          t5 = t4\<lparr>velocity := (velocity t4)\<lparr>yv := damping t4 * yv (velocity t4) + gravity e * gravityScale t4\<rparr>\<rparr>;
          t6 = t5\<lparr>pos := (pos t5)\<lparr>yv := yv (pos t5) + yv (velocity t5)\<rparr>\<rparr>;
          t7 = t6\<lparr>angleVelocity := angleVelocity t6 * angleDamping t6\<rparr>
      in t7\<lparr>angle := angle t7 + angleVelocity t7\<rparr>)"

text \<open>The friction block: \<open>this\<close> is read from the store, where it is already integrated.\<close>

definition applyFriction :: "ref \<Rightarrow> body list \<Rightarrow> body list" where
  "applyFriction this h =
     (let t = h ! this in
      case groundObject t of
        NoGround \<Rightarrow> h
      | g \<Rightarrow>
         (let groundSpeed = (case g of GroundObject r \<Rightarrow> xv (velocity (h ! r)) | _ \<Rightarrow> 0);
              t1 = t\<lparr>velocity := (velocity t)\<lparr>xv := groundSpeed + (xv (velocity t) - groundSpeed) * friction t\<rparr>\<rparr>
          in h[this := t1\<lparr>groundObject := NoGround\<rparr>]))"

subsection \<open>Collision with solid objects\<close>

text \<open>
  The block the source writes twice, once for \<open>y\<close> and once for \<open>x\<close>: the inelastic and the
  two elastic velocities, all divided by \<^verbatim>\<open>this.mass + o.mass\<close>, blended by the larger
  elasticity. \<open>None\<close> when the divisor is 0.
\<close>

definition elasticBlend :: "real \<Rightarrow> real \<Rightarrow> real \<Rightarrow> real \<Rightarrow> real \<Rightarrow> real \<Rightarrow> (real \<times> real) option" where
  "elasticBlend m0 v0 e0 m1 v1 e1 =
     (if m0 + m1 = 0 then None
      else
        let inelastic = (m0 * v0 + m1 * v1) / (m0 + m1);
            elastic0 = v0 * (m0 - m1) / (m0 + m1) + v1 * 2 * m1 / (m0 + m1);
            elastic1 = v1 * (m1 - m0) / (m0 + m1) + v0 * 2 * m0 / (m0 + m1);
            elasticity = max_js e0 e1
        in Some (lerp elasticity inelastic elastic0, lerp elasticity inelastic elastic1))"

definition epsilon :: real where
  "epsilon = 1 / 1000"

text \<open>The body of \<^verbatim>\<open>if (smallStepUp || isBlockedY || !isBlockedX)\<close>.\<close>

definition resolveY :: "vector2 \<Rightarrow> vector2 \<Rightarrow> bool \<Rightarrow> ref \<Rightarrow> ref \<Rightarrow> body list \<Rightarrow> body list option" where
  "resolveY sizeBoth oldPos wasMovingDown this other h =
     (let t = h ! this; ob = h ! other;
          t1 = t\<lparr>pos := (pos t)\<lparr>yv := yv (pos ob) + (yv sizeBoth / 2 + epsilon) * sign_js (yv oldPos - yv (pos ob))\<rparr>\<rparr>
      in if (groundObject ob \<noteq> NoGround \<and> wasMovingDown) \<or> mass ob = 0 then
           (let t2 = (if wasMovingDown then t1\<lparr>groundObject := GroundObject other\<rparr> else t1)
            in Some (h[this := t2\<lparr>velocity := (velocity t2)\<lparr>yv := yv (velocity t2) * - elasticity t2\<rparr>\<rparr>]))
         else if mass ob \<noteq> 0 then
           (case elasticBlend (mass t1) (yv (velocity t1)) (elasticity t1) (mass ob) (yv (velocity ob)) (elasticity ob) of
              None \<Rightarrow> None
            | Some (v0, v1) \<Rightarrow>
                Some (h[this := t1\<lparr>velocity := (velocity t1)\<lparr>yv := v0\<rparr>\<rparr>,
                        other := ob\<lparr>velocity := (velocity ob)\<lparr>yv := v1\<rparr>\<rparr>]))
         else Some (h[this := t1]))"

text \<open>The body of \<^verbatim>\<open>if (!smallStepUp && (isBlockedX || !isBlockedY))\<close>.\<close>

definition resolveX :: "vector2 \<Rightarrow> vector2 \<Rightarrow> ref \<Rightarrow> ref \<Rightarrow> body list \<Rightarrow> body list option" where
  "resolveX sizeBoth oldPos this other h =
     (let t = h ! this; ob = h ! other;
          t1 = t\<lparr>pos := (pos t)\<lparr>xv := xv (pos ob) + (xv sizeBoth / 2 + epsilon) * sign_js (xv oldPos - xv (pos ob))\<rparr>\<rparr>
      in if mass ob \<noteq> 0 then
           (case elasticBlend (mass t1) (xv (velocity t1)) (elasticity t1) (mass ob) (xv (velocity ob)) (elasticity ob) of
              None \<Rightarrow> None
            | Some (v0, v1) \<Rightarrow>
                Some (h[this := t1\<lparr>velocity := (velocity t1)\<lparr>xv := v0\<rparr>\<rparr>,
                        other := ob\<lparr>velocity := (velocity ob)\<lparr>xv := v1\<rparr>\<rparr>]))
         else Some (h[this := t1\<lparr>velocity := (velocity t1)\<lparr>xv := xv (velocity t1) * - elasticity t1\<rparr>\<rparr>]))"

text \<open>The branch for an object that already overlapped at the old position: push away.\<close>

definition pushAway :: "env \<Rightarrow> vector2 \<Rightarrow> ref \<Rightarrow> ref \<Rightarrow> world \<Rightarrow> world" where
  "pushAway e oldPos this other w =
     (let h = heap w; t = h ! this; ob = h ! other;
          deltaPos = subtract oldPos (pos ob);
          len = length_v deltaPos;
          pushAwayAccel = 1 / 1000
      in case (if len < 1 / 100 then randVector e w pushAwayAccel
               else (scale deltaPos (pushAwayAccel / len), w)) of
           (vel, w1) \<Rightarrow>
             (let h1 = h[this := t\<lparr>velocity := add (velocity t) vel\<rparr>];
                  h2 = (if mass ob \<noteq> 0 then h1[other := (h1 ! other)\<lparr>velocity := subtract (velocity (h1 ! other)) vel\<rparr>] else h1)
              in w1\<lparr>heap := h2\<rparr>))"

text \<open>The axis tests of a new overlap, then the two resolutions in the order of the source.\<close>

definition resolveAxes :: "env \<Rightarrow> vector2 \<Rightarrow> bool \<Rightarrow> ref \<Rightarrow> ref \<Rightarrow> body list \<Rightarrow> body list option" where
  "resolveAxes e oldPos wasMovingDown this other h =
     (let t = h ! this; ob = h ! other;
          sizeBoth = add (sizeV t) (sizeV ob);
          smallStepUp = ((yv oldPos - yv (pos ob)) * 2 > yv sizeBoth + gravity e);
          isBlockedX = (abs_js (yv oldPos - yv (pos ob)) * 2 < yv sizeBoth);
          isBlockedY = (abs_js (xv oldPos - xv (pos ob)) * 2 < xv sizeBoth)
      in case (if smallStepUp \<or> isBlockedY \<or> \<not> isBlockedX
               then resolveY sizeBoth oldPos wasMovingDown this other h else Some h) of
           None \<Rightarrow> None
         | Some h1 \<Rightarrow>
             (if \<not> smallStepUp \<and> (isBlockedX \<or> \<not> isBlockedY)
              then resolveX sizeBoth oldPos this other h1 else Some h1))"

text \<open>One iteration of \<^verbatim>\<open>for (const o of engineObjectsCollide)\<close>; \<open>Some w\<close> is \<^verbatim>\<open>continue\<close>.\<close>

definition collideStep :: "env \<Rightarrow> vector2 \<Rightarrow> bool \<Rightarrow> ref \<Rightarrow> ref \<Rightarrow> world \<Rightarrow> world option" where
  "collideStep e oldPos wasMovingDown this other w =
     (let h = heap w; t = h ! this; ob = h ! other in
      if (\<not> isSolid t \<and> \<not> isSolid ob) \<or> destroyed ob \<or> parent ob \<noteq> None \<or> other = this then Some w
      else if \<not> isOverlapping (pos t) (sizeV t) (pos ob) (sizeV ob) then Some w
      else if \<not> collideWithObject t other \<or> \<not> collideWithObject ob this then Some w
      else if isOverlapping oldPos (sizeV t) (pos ob) (sizeV ob) then Some (pushAway e oldPos this other w)
      else map_option (\<lambda>h'. w\<lparr>heap := h'\<rparr>) (resolveAxes e oldPos wasMovingDown this other h))"

fun collideLoop :: "env \<Rightarrow> vector2 \<Rightarrow> bool \<Rightarrow> ref \<Rightarrow> ref list \<Rightarrow> world \<Rightarrow> world option" where
  "collideLoop e oldPos wasMovingDown this [] w = Some w"
| "collideLoop e oldPos wasMovingDown this (other # os) w =
     (case collideStep e oldPos wasMovingDown this other w of
        None \<Rightarrow> None
      | Some w' \<Rightarrow> collideLoop e oldPos wasMovingDown this os w')"

subsection \<open>Collision with tiles\<close>

text \<open>The body of \<^verbatim>\<open>if (this.collideTiles)\<close>.\<close>

definition tileCollide :: "env \<Rightarrow> vector2 \<Rightarrow> bool \<Rightarrow> ref \<Rightarrow> body \<Rightarrow> body" where
  "tileCollide e oldPos wasMovingDown this t =
     (if tileCollisionTest e (pos t) (sizeV t) this then
        if \<not> tileCollisionTest e oldPos (sizeV t) this then
          (let isBlockedY = tileCollisionTest e (Vector2 (xv oldPos) (yv (pos t))) (sizeV t) this;
               isBlockedX = tileCollisionTest e (Vector2 (xv (pos t)) (yv oldPos)) (sizeV t) this;
               t1 = (if isBlockedY \<or> \<not> isBlockedX then
                       (let a = t\<lparr>groundObject := (if wasMovingDown then GroundTile else NoGround)\<rparr>;
                            b = a\<lparr>velocity := (velocity a)\<lparr>yv := yv (velocity a) * - elasticity a\<rparr>\<rparr>;
                            off = of_int (toInt32 (yv oldPos - yv (sizeV b) / 2)) - (yv oldPos - yv (sizeV b) / 2);
                            c = (if off < 0 \<and> off > damping b * yv (velocity b) + gravity e * gravityScale b
                                 then b\<lparr>velocity := (velocity b)\<lparr>yv :=
                                        (if damping b \<noteq> 0 then (off - gravity e * gravityScale b) / damping b else 0)\<rparr>\<rparr>
                                 else b)
                        in c\<lparr>pos := (pos c)\<lparr>yv := yv oldPos\<rparr>\<rparr>)
                     else t)
           in if isBlockedX
              then (let t2 = t1\<lparr>pos := (pos t1)\<lparr>xv := xv oldPos\<rparr>\<rparr>
                    in t2\<lparr>velocity := (velocity t2)\<lparr>xv := xv (velocity t2) * - elasticity t2\<rparr>\<rparr>)
              else t1)
        else t
      else t)"

subsection \<open>update\<close>

definition update :: "env \<Rightarrow> ref \<Rightarrow> world \<Rightarrow> world option" where
  "update e this w =
     (let h = heap w; t = h ! this in
      case parent t of
        Some p \<Rightarrow>
          (let par = h ! p;
               t1 = t\<lparr>pos := add (rotate_v (multiply (localPos t) (Vector2 (getMirrorSign par) 1)) (- angle par)) (pos par)\<rparr>
           in Some (w\<lparr>heap := h[this := t1\<lparr>angle := getMirrorSign par * localAngle t1 + angle par\<rparr>]\<rparr>))
      | None \<Rightarrow>
          (let oldPos = copy (pos t);
               h1 = h[this := integrate e t]
           in if \<not> enablePhysicsSolver e \<or> mass (h1 ! this) = 0 then Some (w\<lparr>heap := h1\<rparr>)
              else
                (let wasMovingDown = (yv (velocity (h1 ! this)) < 0);
                     w2 = w\<lparr>heap := applyFriction this h1\<rparr>
                 in case (if collideSolidObjects (heap w2 ! this)
                          then collideLoop e oldPos wasMovingDown this (engineObjectsCollide w2) w2
                          else Some w2) of
                      None \<Rightarrow> None
                    | Some w3 \<Rightarrow>
                        (if collideTiles (heap w3 ! this)
                         then Some (w3\<lparr>heap := (heap w3)[this := tileCollide e oldPos wasMovingDown this (heap w3 ! this)]\<rparr>)
                         else Some w3))))"

subsection \<open>Children and destruction\<close>

text \<open>\<^verbatim>\<open>addChild\<close>: the assertion is a no-op outside debug builds.\<close>

definition addChild :: "ref \<Rightarrow> ref \<Rightarrow> vector2 \<Rightarrow> real \<Rightarrow> body list \<Rightarrow> body list" where
  "addChild this child lp la h =
     (let h1 = h[this := (h ! this)\<lparr>children := children (h ! this) @ [child]\<rparr>]
      in h1[child := (h1 ! child)\<lparr>parent := Some this, localPos := copy lp, localAngle := la\<rparr>])"

text \<open>\<^verbatim>\<open>this.children.splice(this.children.indexOf(child), 1); child.parent = 0;\<close>
  \<^verbatim>\<open>indexOf\<close> is -1 for an object that is no child, and \<^verbatim>\<open>splice(-1, 1)\<close> removes the last
  element.\<close>

definition removeChild :: "ref \<Rightarrow> ref \<Rightarrow> body list \<Rightarrow> body list" where
  "removeChild this child h =
     (let cs = children (h ! this);
          h1 = h[this := (h ! this)\<lparr>children := (if child \<in> set cs then remove1 child cs else butlast cs)\<rparr>]
      in h1[child := (h1 ! child)\<lparr>parent := None\<rparr>])"

text \<open>
  \<^verbatim>\<open>destroy()\<close> calls itself for the children, which may be shared or cyclic in a store, so
  the recursion carries fuel: \<open>None\<close> is "out of fuel". Beside the store it returns the
  objects whose destruction ran (the calls that passed the \<open>destroyed\<close> test), in order.
  The loop runs over \<^verbatim>\<open>this.children\<close> as it is after the detachment from the parent: no
  nested call changes a list of children, since each is entered with its parent cleared.
\<close>

fun destroy :: "nat \<Rightarrow> ref \<Rightarrow> body list \<Rightarrow> (body list \<times> ref list) option"
  and destroyChildren :: "nat \<Rightarrow> ref list \<Rightarrow> body list \<Rightarrow> (body list \<times> ref list) option" where
  "destroy 0 this h = None"
| "destroy (Suc n) this h =
     (if destroyed (h ! this) then Some (h, [])
      else
        (let h1 = h[this := (h ! this)\<lparr>destroyed := True\<rparr>];
             h2 = (case parent (h1 ! this) of Some p \<Rightarrow> removeChild p this h1 | None \<Rightarrow> h1)
         in case destroyChildren n (children (h2 ! this)) h2 of
              None \<Rightarrow> None
            | Some (h3, ds) \<Rightarrow> Some (h3, this # ds)))"
| "destroyChildren n [] h = Some (h, [])"
| "destroyChildren n (child # cs) h =
     (case destroy n child (h[child := (h ! child)\<lparr>parent := None\<rparr>]) of
        None \<Rightarrow> None
      | Some (h1, ds1) \<Rightarrow>
          (case destroyChildren n cs h1 of
             None \<Rightarrow> None
           | Some (h2, ds2) \<Rightarrow> Some (h2, ds1 @ ds2)))"

section \<open>Vector2 as an object\<close>

text \<open>
  Whether a method returns a new instance or its receiver, and whether it writes to its
  receiver, is a matter of references: here the vectors live in a store of their own, \<^verbatim>\<open>new\<close>
  appends to it, and a method returns the reference of its result and the store it leaves.
\<close>

definition new_Vector2 :: "vector2 list \<Rightarrow> vector2 \<Rightarrow> ref \<times> vector2 list" where
  "new_Vector2 vs v = (length vs, vs @ [v])"

datatype vecMethod =
    Copy | Add ref | Subtract ref | Multiply ref | Divide ref | Scale real
  | Normalize real | ClampLength real | SetAngle real real | Rotate real | Invert | Floor
  | Lerp ref real

fun invoke :: "vector2 list \<Rightarrow> ref \<Rightarrow> vecMethod \<Rightarrow> (ref \<times> vector2 list) option" where
  "invoke vs this Copy = Some (new_Vector2 vs (copy (vs ! this)))"
| "invoke vs this (Add v) = Some (new_Vector2 vs (add (vs ! this) (vs ! v)))"
| "invoke vs this (Subtract v) = Some (new_Vector2 vs (subtract (vs ! this) (vs ! v)))"
| "invoke vs this (Multiply v) = Some (new_Vector2 vs (multiply (vs ! this) (vs ! v)))"
| "invoke vs this (Divide v) = map_option (new_Vector2 vs) (divide_v (vs ! this) (vs ! v))"
| "invoke vs this (Scale s) = Some (new_Vector2 vs (scale (vs ! this) s))"
| "invoke vs this (Normalize len) = Some (new_Vector2 vs (normalize_v (vs ! this) len))"
| "invoke vs this (ClampLength len) =
     (let l = length_v (vs ! this)
      in if l > len then map_option (\<lambda>k. new_Vector2 vs (scale (vs ! this) k)) (js_div len l)
         else Some (this, vs))"
| "invoke vs this (SetAngle a len) = Some (this, vs[this := setAngle_v a len])"
| "invoke vs this (Rotate a) = Some (new_Vector2 vs (rotate_v (vs ! this) a))"
| "invoke vs this Invert = Some (new_Vector2 vs (invert (vs ! this)))"
| "invoke vs this Floor = Some (new_Vector2 vs (floor_v (vs ! this)))"
| "invoke vs this (Lerp v p) =
     (case new_Vector2 vs (subtract (vs ! v) (vs ! this)) of
        (r1, vs1) \<Rightarrow>
          (case new_Vector2 vs1 (scale (vs1 ! r1) (clamp01 p)) of
             (r2, vs2) \<Rightarrow> Some (new_Vector2 vs2 (add (vs2 ! this) (vs2 ! r2)))))"

text \<open>The references a call passes: the receiver and the vector arguments.\<close>

fun operands :: "ref \<Rightarrow> vecMethod \<Rightarrow> ref list" where
  "operands this (Add v) = [this, v]"
| "operands this (Subtract v) = [this, v]"
| "operands this (Multiply v) = [this, v]"
| "operands this (Divide v) = [this, v]"
| "operands this (Lerp v p) = [this, v]"
| "operands this m = [this]"

section \<open>Vocabulary of the properties\<close>

text \<open>The fields of an object that \<open>update\<close> never writes: everything but the position, the
  velocity, the angle, the angular velocity and the ground object.\<close>

definition fixedPart :: "body \<Rightarrow> body" where
  "fixedPart b = b\<lparr>pos := Vector2 0 0, velocity := Vector2 0 0, angle := 0, angleVelocity := 0,
                   groundObject := NoGround\<rparr>"

text \<open>What a pass over the store on behalf of \<open>this\<close> may change: no object is added or
  removed, every object keeps its fixed part, and an object of mass 0 other than \<open>this\<close> is
  left as it is.\<close>

definition frame :: "ref \<Rightarrow> body list \<Rightarrow> body list \<Rightarrow> bool" where
  "frame this h h' \<longleftrightarrow>
     length h' = length h \<and>
     (\<forall>r. fixedPart (h' ! r) = fixedPart (h ! r) \<and> (r \<noteq> this \<and> mass (h ! r) = 0 \<longrightarrow> h' ! r = h ! r))"

text \<open>The axis selection as the specification words it, for the object \<open>t\<close> that moved from
  \<open>oldPos\<close> and the object \<open>ob\<close> it now overlaps.\<close>

definition smallStepUp :: "env \<Rightarrow> vector2 \<Rightarrow> body \<Rightarrow> body \<Rightarrow> bool" where
  "smallStepUp e oldPos t ob \<longleftrightarrow>
     2 * (yv oldPos - yv (pos ob)) > (yv (sizeV t) + yv (sizeV ob)) + gravity e"

definition overlappedHorizontally :: "vector2 \<Rightarrow> body \<Rightarrow> body \<Rightarrow> bool" where
  "overlappedHorizontally oldPos t ob \<longleftrightarrow> 2 * \<bar>xv oldPos - xv (pos ob)\<bar> < xv (sizeV t) + xv (sizeV ob)"

definition overlappedVertically :: "vector2 \<Rightarrow> body \<Rightarrow> body \<Rightarrow> bool" where
  "overlappedVertically oldPos t ob \<longleftrightarrow> 2 * \<bar>yv oldPos - yv (pos ob)\<bar> < yv (sizeV t) + yv (sizeV ob)"

definition resolvesVertically :: "env \<Rightarrow> vector2 \<Rightarrow> body \<Rightarrow> body \<Rightarrow> bool" where
  "resolvesVertically e oldPos t ob \<longleftrightarrow>
     smallStepUp e oldPos t ob \<or> overlappedHorizontally oldPos t ob \<or> \<not> overlappedVertically oldPos t ob"

definition resolvesHorizontally :: "env \<Rightarrow> vector2 \<Rightarrow> body \<Rightarrow> body \<Rightarrow> bool" where
  "resolvesHorizontally e oldPos t ob \<longleftrightarrow>
     \<not> smallStepUp e oldPos t ob \<and> (overlappedVertically oldPos t ob \<or> \<not> overlappedHorizontally oldPos t ob)"

text \<open>Where the two resolutions put \<open>this\<close>: clear of the other box by 0.001, on the side
  on which the old position lies (the far side when the centres were level).\<close>

definition pushedOutY :: "vector2 \<Rightarrow> body \<Rightarrow> body \<Rightarrow> real" where
  "pushedOutY oldPos t ob =
     (if yv oldPos < yv (pos ob)
      then yv (pos ob) - ((yv (sizeV t) + yv (sizeV ob)) / 2 + 1/1000)
      else yv (pos ob) + ((yv (sizeV t) + yv (sizeV ob)) / 2 + 1/1000))"

definition pushedOutX :: "vector2 \<Rightarrow> body \<Rightarrow> body \<Rightarrow> real" where
  "pushedOutX oldPos t ob =
     (if xv oldPos < xv (pos ob)
      then xv (pos ob) - ((xv (sizeV t) + xv (sizeV ob)) / 2 + 1/1000)
      else xv (pos ob) + ((xv (sizeV t) + xv (sizeV ob)) / 2 + 1/1000))"

text \<open>The two methods of \<open>Vector2\<close> that are set apart below.\<close>

fun isSetAngle :: "vecMethod \<Rightarrow> bool" where
  "isSetAngle (SetAngle a len) = True"
| "isSetAngle m = False"

fun isClampLength :: "vecMethod \<Rightarrow> bool" where
  "isClampLength (ClampLength len) = True"
| "isClampLength m = False"

text \<open>The hierarchy of objects: \<open>(p, c)\<close> is an edge when \<open>c\<close> is in the list of children of
  \<open>p\<close>; the descendants of an object are what the edges reach from it.\<close>

definition childEdges :: "body list \<Rightarrow> (ref \<times> ref) set" where
  "childEdges h = {(p, c). p < length h \<and> c \<in> set (children (h ! p))}"

definition descendants :: "body list \<Rightarrow> ref \<Rightarrow> ref set" where
  "descendants h r = {x. (r, x) \<in> (childEdges h)\<^sup>+}"

text \<open>Every reference an object holds to a child or to its parent is an object of the store.\<close>

definition refsInRange :: "body list \<Rightarrow> bool" where
  "refsInRange h \<longleftrightarrow>
     (\<forall>b \<in> set h. (\<forall>c \<in> set (children b). c < length h) \<and> (\<forall>p. parent b = Some p \<longrightarrow> p < length h))"

text \<open>
  What a run of destructions that starts from the objects \<open>R\<close> does to a store, with \<open>ds\<close> the
  objects whose destruction ran: the lists of children stay, a parent is at most cleared,
  the objects newly destroyed are those of \<open>ds\<close>, each once, each reached from \<open>R\<close>, and each
  with all its children destroyed in the end.
\<close>

definition destroys :: "ref set \<Rightarrow> body list \<Rightarrow> body list \<Rightarrow> ref list \<Rightarrow> bool" where
  "destroys R h h' ds \<longleftrightarrow>
     length h' = length h \<and>
     (\<forall>x < length h. children (h' ! x) = children (h ! x)) \<and>
     (\<forall>x < length h. parent (h' ! x) = None \<or> parent (h' ! x) = parent (h ! x)) \<and>
     (\<forall>x < length h. destroyed (h' ! x) \<longleftrightarrow> destroyed (h ! x) \<or> x \<in> set ds) \<and>
     distinct ds \<and>
     (\<forall>x \<in> set ds. x < length h \<and> \<not> destroyed (h ! x) \<and>
        (\<forall>c \<in> set (children (h ! x)). c < length h \<and> destroyed (h' ! c)) \<and>
        (\<exists>c \<in> R. (c, x) \<in> (childEdges h)\<^sup>*))"

text \<open>The objects of the store that are not destroyed.\<close>

definition live :: "body list \<Rightarrow> ref set" where
  "live h = {x. x < length h \<and> \<not> destroyed (h ! x)}"

section \<open>Example objects\<close>

definition b0 :: body where
  "b0 = \<lparr>pos = Vector2 0 0, sizeV = Vector2 1 1, angle = 0, mass = 1, damping = 1,
         angleDamping = 1, elasticity = 0, friction = 1, gravityScale = 1,
         velocity = Vector2 0 0, angleVelocity = 0, children = [], collideTiles = True,
         collideSolidObjects = True, isSolid = True, destroyed = False, parent = None,
         groundObject = NoGround, localPos = Vector2 0 0, localAngle = 0, mirror = False\<rparr>"

text \<open>No gravity; the tiles block every position below the line \<open>y = 0\<close>.\<close>

definition env0 :: env where
  "env0 = \<lparr>gravity = 0, objectMaxSpeed = 1, enablePhysicsSolver = True,
         tileCollisionTest = (\<lambda>p s r. yv p < 0), mathRandom = (\<lambda>n. 0)\<rparr>"

text \<open>An object that falls through the line \<open>y = 0\<close> in one tick.\<close>

definition tileWorld :: world where
  "tileWorld = \<lparr>heap = [b0\<lparr>pos := Vector2 0 (1/2), velocity := Vector2 0 (- 1)\<rparr>],
                engineObjectsCollide = [0], randomCalls = 0\<rparr>"

text \<open>An object that falls onto a fixed one (mass 0).\<close>

definition groundWorld :: world where
  "groundWorld = \<lparr>heap = [b0\<lparr>pos := Vector2 0 (6/5), velocity := Vector2 0 (- 1/2)\<rparr>,
                          b0\<lparr>sizeV := Vector2 4 1, mass := 0\<rparr>],
                  engineObjectsCollide = [0, 1], randomCalls = 0\<rparr>"

text \<open>An object of mass 1 that runs into one of mass 3 from the left, both inelastic.\<close>

definition pairWorld :: world where
  "pairWorld = \<lparr>heap = [b0\<lparr>velocity := Vector2 (1/2) 0\<rparr>,
                        b0\<lparr>pos := Vector2 (6/5) 0, mass := 3\<rparr>],
                engineObjectsCollide = [0, 1], randomCalls = 0\<rparr>"


text \<open>Two inelastic objects of mass 1 and 3.\<close>

definition inelasticPair :: "body list" where
  "inelasticPair = [b0\<lparr>velocity := Vector2 (1/2) 1\<rparr>,
                    b0\<lparr>pos := Vector2 (6/5) 0, mass := 3, velocity := Vector2 (- 1/2) (1/3)\<rparr>]"

text \<open>An object that falls onto a movable one (mass 3) that is itself on the ground; both
  inelastic.\<close>

definition groundedWorld :: world where
  "groundedWorld = \<lparr>heap = [b0\<lparr>pos := Vector2 0 (6/5), velocity := Vector2 0 (- 1/2)\<rparr>,
                            b0\<lparr>mass := 3, groundObject := GroundTile\<rparr>],
                    engineObjectsCollide = [0, 1], randomCalls = 0\<rparr>"


text \<open>Gravity \<open>-1/2\<close>, otherwise as \<open>env0\<close>.\<close>

definition env1 :: env where
  "env1 = \<lparr>gravity = - 1/2, objectMaxSpeed = 1, enablePhysicsSolver = True,
           tileCollisionTest = (\<lambda>p s r. yv p < 0), mathRandom = (\<lambda>n. 0)\<rparr>"

text \<open>Two boxes of size 1 at rest: object 0 at \<open>p\<close>, object 1 (mass 3) at the origin.\<close>

definition boxes :: "vector2 \<Rightarrow> world" where
  "boxes p = \<lparr>heap = [b0\<lparr>pos := p\<rparr>, b0\<lparr>mass := 3\<rparr>], engineObjectsCollide = [0, 1], randomCalls = 0\<rparr>"

text \<open>An object (1) attached to a parent (0), with two children (2 and 3), one of which
  has a child of its own (4).\<close>

definition family :: "body list" where
  "family = [b0\<lparr>children := [1]\<rparr>,
             b0\<lparr>parent := Some 0, children := [2, 3]\<rparr>,
             b0\<lparr>parent := Some 1, children := [4]\<rparr>,
             b0\<lparr>parent := Some 1\<rparr>,
             b0\<lparr>parent := Some 2\<rparr>]"

text \<open>The same store after \<open>destroy\<close> of object 1.\<close>

definition familyAfter :: "body list" where
  "familyAfter = [b0\<lparr>children := []\<rparr>,
             b0\<lparr>parent := None, children := [2, 3], destroyed := True\<rparr>,
             b0\<lparr>parent := None, children := [4], destroyed := True\<rparr>,
             b0\<lparr>parent := None, destroyed := True\<rparr>,
             b0\<lparr>parent := None, destroyed := True\<rparr>]"

section \<open>Properties\<close>

subsection \<open>The vector kernel\<close>

lemma round_even_small:
  assumes "0 \<le> x" "x < 1/2"
  shows "round_even x = 0"
proof -
  from assms have "\<lfloor>x\<rfloor> = 0"
    by (simp add: floor_eq_iff)
  with assms show ?thesis
    by (simp add: round_even_def)
qed

lemma round_even_int: "round_even (of_int n) = n"
  by (simp add: round_even_def)

text \<open>A positive real below half the smallest positive double, \<open>2^-1074\<close>, rounds to 0.\<close>

lemma binary64_underflow:
  assumes "0 < x" "x < 2 powr (- 1075)"
  shows "binary64 x = Some 0"
proof -
  have "log 2 x < - 1075"
    using assms by (simp add: log_less_iff)
  then have "\<lfloor>log 2 x\<rfloor> < - 1022"
    by (simp add: floor_less_iff)
  then have e: "max \<lfloor>log 2 \<bar>x\<bar>\<rfloor> (- 1022) = - 1022"
    using assms(1) by simp
  have "x / 2 powr (- 1074) < 2 powr (- 1075) / 2 powr (- 1074)"
    using assms(2) by (simp add: divide_strict_right_mono)
  also have "2 powr (- 1075) / 2 powr (- 1074) = (1/2 :: real)"
    by (simp add: powr_diff [symmetric])
  finally have "round_even (x / 2 powr (- 1074)) = 0"
    using assms(1) by (intro round_even_small) simp_all
  with assms(1) e show ?thesis
    by (simp add: binary64_def Let_def)
qed

text \<open>A power of two in the normal range is a double.\<close>

lemma binary64_pow2:
  assumes "- 1022 \<le> n" "n < 1024"
  shows "binary64 (2 powr of_int n) = Some (2 powr of_int n)"
proof -
  have e: "max \<lfloor>log 2 \<bar>2 powr of_int n :: real\<bar>\<rfloor> (- 1022) = n"
    using assms by simp
  have "2 powr of_int n / 2 powr (of_int n - 52) = (2 powr 52 :: real)"
    by (simp add: powr_diff [symmetric])
  also have "(2 powr 52 :: real) = of_int (2 ^ 52)"
    by (simp add: powr_numeral [symmetric] del: powr_numeral)
  finally have q: "2 powr of_int n / 2 powr (of_int n - 52) = (of_int (2 ^ 52) :: real)" .
  have y: "of_int (round_even (2 powr of_int n / 2 powr (of_int n - 52))) * 2 powr (of_int n - 52)
             = (2 powr of_int n :: real)"
    unfolding q round_even_int
    by (simp add: powr_diff)
  have "(2 powr of_int n :: real) < 2 powr 1024"
    using assms by (intro powr_less_mono) simp_all
  then have lt: "\<not> 2 powr 1024 \<le> \<bar>2 powr of_int n :: real\<bar>"
    by (simp del: powr_numeral)
  have nz: "(2 powr of_int n :: real) \<noteq> 0"
    by simp
  show ?thesis
    unfolding binary64_def Let_def e y using lt nz by (simp only: if_False)
qed

text \<open>The half of the claim on the zero vector holds in doubles as it does in exact
  arithmetic.\<close>

lemma normalize64_zero: "normalize64 (Vector2 0 0) L = Some (Vector2 L 0)"
  by (simp add: normalize64_def length64_def lengthSquared64_def binary64_def Vector2_def)

text \<open>
  Claim C8 fails in the program for a receiver that is not the zero vector but whose squares
  underflow. The vector \<open>(0, 2^-600)\<close> is a vector of doubles; the square of its second
  component, \<open>2^-1200\<close>, rounds to 0, so the length the program computes is 0, the guard takes
  the receiver for the zero vector, and \<open>normalize(1)\<close> returns \<open>(1, 0)\<close>. The vector of length
  1 in the direction of the receiver is \<open>(0, 1)\<close>, which is what exact arithmetic gives.
\<close>

theorem normalize_underflow:
  "binary64 (2 powr - 600) = Some (2 powr - 600) \<and>
   normalize64 (Vector2 0 (2 powr - 600)) 1 = Some (Vector2 1 0) \<and>
   normalize_v (Vector2 0 (2 powr - 600)) 1 = Vector2 0 1"
proof -
  have a: "binary64 (2 powr - 600) = Some (2 powr - 600)"
    using binary64_pow2 [of "- 600"] by simp
  have "(2 powr - 600 * 2 powr - 600 :: real) = 2 powr - 1200"
    by (simp add: powr_add [symmetric])
  moreover have "binary64 (2 powr - 1200) = Some 0"
    by (rule binary64_underflow) simp_all
  ultimately have s: "binary64 (2 powr - 600 * 2 powr - 600) = Some 0"
    by simp
  have z: "binary64 0 = Some 0"
    by (simp add: binary64_def)
  have "length64 (Vector2 0 (2 powr - 600)) = Some 0"
    by (simp add: length64_def lengthSquared64_def Vector2_def s z)
  then have b: "normalize64 (Vector2 0 (2 powr - 600)) 1 = Some (Vector2 1 0)"
    by (simp add: normalize64_def)
  have "length_v (Vector2 0 (2 powr - 600)) = 2 powr - 600"
    by (simp add: length_v_def lengthSquared_def Vector2_def)
  then have c: "normalize_v (Vector2 0 (2 powr - 600)) 1 = Vector2 0 1"
    by (simp add: normalize_v_def scale_def Vector2_def)
  from a b c show ?thesis
    by (intro conjI)
qed

text \<open>
  Claim C10. A body of mass 0 keeps its velocity (indeed its whole state) under
  \<open>applyAcceleration\<close> and \<open>applyForce\<close>, although \<open>applyForce\<close> computes \<open>1/mass\<close> first; for
  a body of positive mass \<open>applyAcceleration\<close> adds the vector to the velocity, component by
  component, and \<open>applyForce\<close> adds the force times \<open>1/mass\<close>; nothing else of the body changes.
\<close>

theorem applyAcceleration_applyForce_mass:
  "(mass b = 0 \<longrightarrow> applyAcceleration b a = Some b \<and> applyForce b f = Some b) \<and>
   (0 < mass b \<longrightarrow>
      applyAcceleration b (Some v) =
        Some (b\<lparr>velocity := \<lparr>xv = xv (velocity b) + xv v, yv = yv (velocity b) + yv v\<rparr>\<rparr>) \<and>
      applyForce b f =
        Some (b\<lparr>velocity := \<lparr>xv = xv (velocity b) + xv f * (1 / mass b),
                             yv = yv (velocity b) + yv f * (1 / mass b)\<rparr>\<rparr>))"
  by (simp add: applyAcceleration_def applyForce_def js_div_def add_def scale_def Vector2_def)

theorem applyAcceleration_applyForce_mass_witness:
  "applyAcceleration (b0\<lparr>mass := 0, velocity := \<lparr>xv = 1, yv = 2\<rparr>\<rparr>) (Some \<lparr>xv = 3, yv = 4\<rparr>) =
     Some (b0\<lparr>mass := 0, velocity := \<lparr>xv = 1, yv = 2\<rparr>\<rparr>) \<and>
   applyForce (b0\<lparr>mass := 0, velocity := \<lparr>xv = 1, yv = 2\<rparr>\<rparr>) \<lparr>xv = 3, yv = 4\<rparr> =
     Some (b0\<lparr>mass := 0, velocity := \<lparr>xv = 1, yv = 2\<rparr>\<rparr>) \<and>
   applyAcceleration (b0\<lparr>mass := 2, velocity := \<lparr>xv = 1, yv = 2\<rparr>\<rparr>) (Some \<lparr>xv = 3, yv = 4\<rparr>) =
     Some (b0\<lparr>mass := 2, velocity := \<lparr>xv = 4, yv = 6\<rparr>\<rparr>) \<and>
   applyForce (b0\<lparr>mass := 2, velocity := \<lparr>xv = 1, yv = 2\<rparr>\<rparr>) \<lparr>xv = 3, yv = 4\<rparr> =
     Some (b0\<lparr>mass := 2, velocity := \<lparr>xv = 5/2, yv = 4\<rparr>\<rparr>)"
  using applyAcceleration_applyForce_mass
      [of "b0\<lparr>mass := 0, velocity := \<lparr>xv = 1, yv = 2\<rparr>\<rparr>" "Some \<lparr>xv = 3, yv = 4\<rparr>" "\<lparr>xv = 3, yv = 4\<rparr>" "\<lparr>xv = 3, yv = 4\<rparr>"]
    applyAcceleration_applyForce_mass
      [of "b0\<lparr>mass := 2, velocity := \<lparr>xv = 1, yv = 2\<rparr>\<rparr>" None "\<lparr>xv = 3, yv = 4\<rparr>" "\<lparr>xv = 3, yv = 4\<rparr>"]
  by (simp add: b0_def)

text \<open>
  Claim C9, as stated, fails: \<open>setAngle\<close> writes into its receiver and returns it, and
  \<open>clampLength\<close> returns its receiver when the vector is not longer than the bound.
\<close>

theorem vector2_new_instance_counterexample:
  "invoke [Vector2 5 5] 0 (SetAngle 0 1) = Some (0, [Vector2 0 1]) \<and>
   invoke [Vector2 3 0] 0 (ClampLength 10) = Some (0, [Vector2 3 0])"
  by (simp add: setAngle_v_def length_v_def lengthSquared_def Vector2_def)

text \<open>
  Claim C9, amended. A method other than \<open>setAngle\<close> leaves every vector of the store as it
  was; a method other than \<open>setAngle\<close> and \<open>clampLength\<close> returns a vector that did not exist
  before the call, so one that is neither the receiver nor an argument; \<open>setAngle\<close> overwrites
  its receiver and returns it.
\<close>

theorem vector2_operations_fresh:
  assumes "invoke vs this m = Some (r, vs')" and "\<forall>v \<in> set (operands this m). v < length vs"
  shows "(\<not> isSetAngle m \<longrightarrow> take (length vs) vs' = vs) \<and>
         (\<not> isSetAngle m \<and> \<not> isClampLength m \<longrightarrow>
            r \<notin> set (operands this m) \<and> length vs \<le> r \<and> r < length vs') \<and>
         (\<forall>a len. m = SetAngle a len \<longrightarrow> r = this \<and> vs' = vs[this := setAngle_v a len])"
  using assms
  by (cases m) (auto simp: new_Vector2_def Let_def split: if_splits)

theorem vector2_operations_fresh_witness:
  "invoke [Vector2 1 2, Vector2 3 4] 0 (Add 1) = Some (2, [Vector2 1 2, Vector2 3 4, Vector2 4 6]) \<and>
   invoke [Vector2 1 2, Vector2 3 4] 0 (Lerp 1 (1/2)) =
     Some (4, [Vector2 1 2, Vector2 3 4, Vector2 2 2, Vector2 1 1, Vector2 2 3]) \<and>
   invoke [Vector2 1 2, Vector2 3 4] 0 (SetAngle 0 2) = Some (0, [Vector2 0 2, Vector2 3 4])"
proof -
  have a: "invoke [Vector2 1 2, Vector2 3 4] 0 (Add 1) = Some (2, [Vector2 1 2, Vector2 3 4, Vector2 4 6])"
    by (simp add: new_Vector2_def add_def Vector2_def)
  have l: "invoke [Vector2 1 2, Vector2 3 4] 0 (Lerp 1 (1/2)) =
     Some (4, [Vector2 1 2, Vector2 3 4, Vector2 2 2, Vector2 1 1, Vector2 2 3])"
    by (simp add: new_Vector2_def add_def subtract_def scale_def clamp01_def clamp_def Vector2_def)
  have s: "invoke [Vector2 1 2, Vector2 3 4] 0 (SetAngle 0 2) = Some (0, [Vector2 0 2, Vector2 3 4])"
    by (simp add: setAngle_v_def Vector2_def)
  from vector2_operations_fresh [OF a] vector2_operations_fresh [OF l] vector2_operations_fresh [OF s] a l s
  show ?thesis
    by simp
qed

subsection \<open>What the collision loop leaves alone\<close>

lemma nth_list_update_field: "f x = f (xs ! i) \<Longrightarrow> f (xs[i := x] ! j) = f (xs ! j)"
  by (cases "i < length xs") (simp_all add: nth_list_update list_update_beyond not_less)

lemma fixedPart_upd [simp]:
  "fixedPart (b\<lparr>pos := p\<rparr>) = fixedPart b"
  "fixedPart (b\<lparr>velocity := v\<rparr>) = fixedPart b"
  "fixedPart (b\<lparr>groundObject := g\<rparr>) = fixedPart b"
  "fixedPart (b\<lparr>angle := a\<rparr>) = fixedPart b"
  "fixedPart (b\<lparr>angleVelocity := a\<rparr>) = fixedPart b"
  by (simp_all add: fixedPart_def)

lemma fixedPart_sel:
  "mass (fixedPart b) = mass b" "sizeV (fixedPart b) = sizeV b"
  "collideTiles (fixedPart b) = collideTiles b" "collideSolidObjects (fixedPart b) = collideSolidObjects b"
  "parent (fixedPart b) = parent b" "elasticity (fixedPart b) = elasticity b"
  by (simp_all add: fixedPart_def)

lemma fixedPart_fields:
  assumes "fixedPart a = fixedPart b"
  shows "mass a = mass b" "sizeV a = sizeV b" "collideTiles a = collideTiles b"
    "collideSolidObjects a = collideSolidObjects b" "parent a = parent b" "elasticity a = elasticity b"
proof -
  have "f a = f b" if "\<And>c. f (fixedPart c) = f c" for f :: "body \<Rightarrow> 'a"
    using that [of a] that [of b] assms by simp
  from this [of mass] this [of sizeV] this [of collideTiles] this [of collideSolidObjects]
    this [of parent] this [of elasticity]
  show "mass a = mass b" "sizeV a = sizeV b" "collideTiles a = collideTiles b"
    "collideSolidObjects a = collideSolidObjects b" "parent a = parent b" "elasticity a = elasticity b"
    by (simp_all add: fixedPart_sel)
qed

lemma frame_refl: "frame this h h"
  by (simp add: frame_def)

lemma frameD:
  assumes "frame this h h'"
  shows "length h' = length h" "fixedPart (h' ! r) = fixedPart (h ! r)" "mass (h' ! r) = mass (h ! r)"
    "r \<noteq> this \<Longrightarrow> mass (h ! r) = 0 \<Longrightarrow> h' ! r = h ! r"
proof -
  from assms show "length h' = length h" and f: "fixedPart (h' ! r) = fixedPart (h ! r)"
    unfolding frame_def by blast+
  from f show "mass (h' ! r) = mass (h ! r)"
    by (rule fixedPart_fields(1))
  from assms show "r \<noteq> this \<Longrightarrow> mass (h ! r) = 0 \<Longrightarrow> h' ! r = h ! r"
    unfolding frame_def by blast
qed

lemma frameI:
  assumes "length h' = length h" "\<And>r. fixedPart (h' ! r) = fixedPart (h ! r)"
    "\<And>r. r \<noteq> this \<Longrightarrow> mass (h ! r) = 0 \<Longrightarrow> h' ! r = h ! r"
  shows "frame this h h'"
  unfolding frame_def using assms by blast

lemma frame_trans:
  assumes "frame this h h1" "frame this h1 h2"
  shows "frame this h h2"
proof (rule frameI)
  show "length h2 = length h"
    using frameD(1) [OF assms(1)] frameD(1) [OF assms(2)] by simp
  show "fixedPart (h2 ! r) = fixedPart (h ! r)" for r
    using frameD(2) [OF assms(1), of r] frameD(2) [OF assms(2), of r] by simp
  show "h2 ! r = h ! r" if "r \<noteq> this" "mass (h ! r) = 0" for r
  proof -
    have "h1 ! r = h ! r"
      using that by (rule frameD(4) [OF assms(1)])
    moreover have "h2 ! r = h1 ! r"
      using that frameD(3) [OF assms(1), of r] by (intro frameD(4) [OF assms(2)]) simp_all
    ultimately show ?thesis by simp
  qed
qed

lemma frame_this:
  assumes "fixedPart t' = fixedPart (h ! this)"
  shows "frame this h (h[this := t'])"
proof (rule frameI)
  show "length (h[this := t']) = length h" by simp
  show "fixedPart (h[this := t'] ! r) = fixedPart (h ! r)" for r
    using assms by (rule nth_list_update_field)
  show "h[this := t'] ! r = h ! r" if "r \<noteq> this" for r
    using that by simp
qed

lemma frame_other:
  assumes "mass (h ! other) \<noteq> 0" "fixedPart ob' = fixedPart (h ! other)"
  shows "frame this h (h[other := ob'])"
proof (rule frameI)
  show "length (h[other := ob']) = length h" by simp
  show "fixedPart (h[other := ob'] ! r) = fixedPart (h ! r)" for r
    using assms(2) by (rule nth_list_update_field)
  show "h[other := ob'] ! r = h ! r" if "mass (h ! r) = 0" for r
    using that assms(1) by (cases "r = other") simp_all
qed

lemma frame_both:
  assumes "fixedPart t' = fixedPart (h ! this)" "mass (h ! other) \<noteq> 0" "fixedPart ob' = fixedPart (h ! other)"
  shows "frame this h (h[this := t', other := ob'])"
proof (rule frame_trans [OF frame_this [OF assms(1)]])
  have f: "fixedPart (h[this := t'] ! other) = fixedPart (h ! other)"
    using assms(1) by (rule nth_list_update_field)
  then have "mass (h[this := t'] ! other) = mass (h ! other)"
    by (rule fixedPart_fields(1))
  with assms(2) have m: "mass (h[this := t'] ! other) \<noteq> 0"
    by simp
  from assms(3) f have "fixedPart ob' = fixedPart (h[this := t'] ! other)"
    by simp
  with m show "frame this (h[this := t']) (h[this := t', other := ob'])"
    by (rule frame_other)
qed

lemma resolveY_frame:
  assumes "resolveY sb oldPos wmd this other h = Some h'"
  shows "frame this h h'"
proof -
  define t1 where "t1 = (h ! this)\<lparr>pos := (pos (h ! this))\<lparr>yv := yv (pos (h ! other)) + (yv sb / 2 + epsilon) * sign_js (yv oldPos - yv (pos (h ! other)))\<rparr>\<rparr>"
  have f1: "fixedPart t1 = fixedPart (h ! this)"
    by (simp add: t1_def)
  show ?thesis
  proof (cases "(groundObject (h ! other) \<noteq> NoGround \<and> wmd) \<or> mass (h ! other) = 0")
    case True
    define t2 where "t2 = (if wmd then t1\<lparr>groundObject := GroundObject other\<rparr> else t1)"
    have f2: "fixedPart t2 = fixedPart (h ! this)"
      by (simp add: t2_def f1)
    from True assms have "h' = h[this := t2\<lparr>velocity := (velocity t2)\<lparr>yv := yv (velocity t2) * - elasticity t2\<rparr>\<rparr>]"
      unfolding resolveY_def Let_def t1_def [symmetric] t2_def [symmetric] by simp
    then show ?thesis
      by (simp add: frame_this f2)
  next
    case False
    then have m: "mass (h ! other) \<noteq> 0"
      by simp
    from False assms obtain v0 v1 where
      "h' = h[this := t1\<lparr>velocity := (velocity t1)\<lparr>yv := v0\<rparr>\<rparr>,
              other := (h ! other)\<lparr>velocity := (velocity (h ! other))\<lparr>yv := v1\<rparr>\<rparr>]"
      unfolding resolveY_def Let_def t1_def [symmetric] by (auto split: option.splits prod.splits)
    then show ?thesis
      using m by (simp add: frame_both f1)
  qed
qed

lemma resolveX_frame:
  assumes "resolveX sb oldPos this other h = Some h'"
  shows "frame this h h'"
proof -
  define t1 where "t1 = (h ! this)\<lparr>pos := (pos (h ! this))\<lparr>xv := xv (pos (h ! other)) + (xv sb / 2 + epsilon) * sign_js (xv oldPos - xv (pos (h ! other)))\<rparr>\<rparr>"
  have f1: "fixedPart t1 = fixedPart (h ! this)"
    by (simp add: t1_def)
  show ?thesis
  proof (cases "mass (h ! other) = 0")
    case True
    with assms have "h' = h[this := t1\<lparr>velocity := (velocity t1)\<lparr>xv := xv (velocity t1) * - elasticity t1\<rparr>\<rparr>]"
      unfolding resolveX_def Let_def t1_def [symmetric] by simp
    then show ?thesis
      by (simp add: frame_this f1)
  next
    case False
    with assms obtain v0 v1 where
      "h' = h[this := t1\<lparr>velocity := (velocity t1)\<lparr>xv := v0\<rparr>\<rparr>,
              other := (h ! other)\<lparr>velocity := (velocity (h ! other))\<lparr>xv := v1\<rparr>\<rparr>]"
      unfolding resolveX_def Let_def t1_def [symmetric] by (auto split: option.splits prod.splits)
    then show ?thesis
      using False by (simp add: frame_both f1)
  qed
qed

lemma resolveAxes_frame:
  assumes "resolveAxes e oldPos wmd this other h = Some h'"
  shows "frame this h h'"
proof -
  let ?t = "h ! this" and ?ob = "h ! other"
  let ?sb = "add (sizeV ?t) (sizeV ?ob)"
  let ?ssu = "(yv oldPos - yv (pos ?ob)) * 2 > yv ?sb + gravity e"
  let ?bx = "abs_js (yv oldPos - yv (pos ?ob)) * 2 < yv ?sb"
  let ?by = "abs_js (xv oldPos - xv (pos ?ob)) * 2 < xv ?sb"
  obtain h1 where
    1: "(if ?ssu \<or> ?by \<or> \<not> ?bx then resolveY ?sb oldPos wmd this other h else Some h) = Some h1"
    and 2: "(if \<not> ?ssu \<and> (?bx \<or> \<not> ?by) then resolveX ?sb oldPos this other h1 else Some h1) = Some h'"
    using assms unfolding resolveAxes_def Let_def by (simp split: option.splits)
  have a: "frame this h h1"
    using 1 resolveY_frame [of ?sb oldPos wmd this other h h1] by (simp add: frame_refl split: if_splits)
  have b: "frame this h1 h'"
    using 2 resolveX_frame [of ?sb oldPos this other h1 h'] by (simp add: frame_refl split: if_splits)
  from a b show ?thesis
    by (rule frame_trans)
qed

lemma pushAway_frame:
  "frame this (heap w) (heap (pushAway e oldPos this other w)) \<and>
   engineObjectsCollide (pushAway e oldPos this other w) = engineObjectsCollide w"
proof -
  obtain vel w1 where v: "(if length_v (subtract oldPos (pos (heap w ! other))) < 1 / 100 then randVector e w (1 / 1000)
               else (scale (subtract oldPos (pos (heap w ! other))) (1 / 1000 / length_v (subtract oldPos (pos (heap w ! other)))), w)) = (vel, w1)"
    by (cases "(if length_v (subtract oldPos (pos (heap w ! other))) < 1 / 100 then randVector e w (1 / 1000)
               else (scale (subtract oldPos (pos (heap w ! other))) (1 / 1000 / length_v (subtract oldPos (pos (heap w ! other)))), w))") 
  then have c: "engineObjectsCollide w1 = engineObjectsCollide w"
    by (auto simp: randVector_def rand_def split: if_splits)
  let ?h1 = "(heap w)[this := (heap w ! this)\<lparr>velocity := add (velocity (heap w ! this)) vel\<rparr>]"
  have 1: "frame this (heap w) ?h1"
    by (rule frame_this) simp
  have f: "fixedPart (?h1 ! other) = fixedPart (heap w ! other)"
    by (rule nth_list_update_field) simp
  have "mass (?h1 ! other) = mass (heap w ! other)"
    using f by (rule fixedPart_fields(1))
  then have 2: "frame this ?h1 (if mass (heap w ! other) \<noteq> 0
               then ?h1[other := (?h1 ! other)\<lparr>velocity := subtract (velocity (?h1 ! other)) vel\<rparr>] else ?h1)"
    by (auto intro!: frame_other frame_refl)
  have "pushAway e oldPos this other w = w1\<lparr>heap := (if mass (heap w ! other) \<noteq> 0
               then ?h1[other := (?h1 ! other)\<lparr>velocity := subtract (velocity (?h1 ! other)) vel\<rparr>] else ?h1)\<rparr>"
    unfolding pushAway_def Let_def v by simp
  with c frame_trans [OF 1 2] show ?thesis
    by simp
qed

lemma collideStep_cases:
  "collideStep e oldPos wmd this other w = Some w \<or>
   collideStep e oldPos wmd this other w = Some (pushAway e oldPos this other w) \<or>
   collideStep e oldPos wmd this other w =
     map_option (\<lambda>h'. w\<lparr>heap := h'\<rparr>) (resolveAxes e oldPos wmd this other (heap w))"
  by (simp add: collideStep_def Let_def)

lemma collideStep_frame:
  assumes "collideStep e oldPos wmd this other w = Some w'"
  shows "frame this (heap w) (heap w') \<and> engineObjectsCollide w' = engineObjectsCollide w"
proof -
  from collideStep_cases [of e oldPos wmd this other w] assms
  have "w' = w \<or> w' = pushAway e oldPos this other w \<or>
     map_option (\<lambda>h'. w\<lparr>heap := h'\<rparr>) (resolveAxes e oldPos wmd this other (heap w)) = Some w'"
    by (auto simp: eq_commute [of "Some w'"])
  then consider (skip) "w' = w" | (push) "w' = pushAway e oldPos this other w"
    | (axes) "map_option (\<lambda>h'. w\<lparr>heap := h'\<rparr>) (resolveAxes e oldPos wmd this other (heap w)) = Some w'"
    by blast
  then show ?thesis
  proof cases
    case skip
    then show ?thesis by (simp add: frame_refl)
  next
    case push
    then show ?thesis using pushAway_frame [of this w e oldPos other] by simp
  next
    case axes
    then obtain h' where "resolveAxes e oldPos wmd this other (heap w) = Some h'" "w' = w\<lparr>heap := h'\<rparr>"
      by auto
    then show ?thesis using resolveAxes_frame [of e oldPos wmd this other "heap w" h'] by simp
  qed
qed

lemma collideLoop_frame:
  assumes "collideLoop e oldPos wmd this os w = Some w'"
  shows "frame this (heap w) (heap w') \<and> engineObjectsCollide w' = engineObjectsCollide w"
  using assms
proof (induction os arbitrary: w)
  case Nil
  then show ?case by (simp add: frame_refl)
next
  case (Cons other os)
  from Cons.prems obtain w1 where
    1: "collideStep e oldPos wmd this other w = Some w1" and 2: "collideLoop e oldPos wmd this os w1 = Some w'"
    by (auto split: option.splits)
  from collideStep_frame [OF 1] Cons.IH [OF 2] show ?case
    by (auto intro: frame_trans)
qed

text \<open>The definitions that evaluate \<open>update\<close> on a concrete world.\<close>

lemmas update_eval = update_def integrate_def clamp_def applyFriction_def collideStep_def
  tileCollide_def toInt32_def js_trunc_def b0_def env0_def Vector2_def Let_def copy_def
  isOverlapping_def abs_js_def collideWithObject_def resolveAxes_def resolveY_def resolveX_def
  elasticBlend_def lerp_def clamp01_def max_js_def sign_js_def epsilon_def add_def

subsection \<open>The response to a collision, the axis, the tiles\<close>

lemma lerp_0: "lerp 0 a b = a"
  by (simp add: lerp_def clamp01_def clamp_def)


lemma elasticBlend_inelastic:
  assumes "0 < m0" "0 < m1"
  shows "elasticBlend m0 v0 0 m1 v1 0 = Some ((m0 * v0 + m1 * v1) / (m0 + m1), (m0 * v0 + m1 * v1) / (m0 + m1))"
  using assms by (simp add: elasticBlend_def max_js_def lerp_0 Let_def)



text \<open>
  Claim C2, as stated, fails on the vertical axis when the other object is grounded and this
  one was moving down: then this one bounces, which with elasticity 0 stops it, and the other
  keeps its velocity, although both have mass and elasticity 0. Here an object of mass 1
  falls with velocity \<open>-1/2\<close> on a grounded object of mass 3 at rest: the common velocity is
  \<open>-1/8\<close>, and \<open>update\<close> leaves the velocity 0 to both.
\<close>

theorem inelastic_common_velocity_counterexample:
  "update env0 0 groundedWorld =
     Some (groundedWorld\<lparr>heap :=
        [b0\<lparr>pos := Vector2 0 (1001/1000), velocity := Vector2 0 0, groundObject := GroundObject 1\<rparr>,
         b0\<lparr>mass := 3, groundObject := GroundTile\<rparr>]\<rparr>) \<and>
   0 < mass (heap groundedWorld ! 0) \<and> 0 < mass (heap groundedWorld ! 1) \<and>
   elasticity (heap groundedWorld ! 0) = 0 \<and> elasticity (heap groundedWorld ! 1) = 0 \<and>
   (mass (heap groundedWorld ! 0) * yv (velocity (heap groundedWorld ! 0)) +
    mass (heap groundedWorld ! 1) * yv (velocity (heap groundedWorld ! 1)))
      / (mass (heap groundedWorld ! 0) + mass (heap groundedWorld ! 1)) = - 1/8 \<and>
   velocity (b0\<lparr>mass := 3, groundObject := GroundTile\<rparr>) = Vector2 0 0"
  by (simp add: update_eval groundedWorld_def)

text \<open>
  Claim C2, amended. When two objects of positive mass and elasticity 0 meet, the response
  gives both the same velocity component, the common velocity \<open>(m1*v1 + m2*v2)/(m1 + m2)\<close>,
  on the horizontal axis, and on the vertical axis unless the other object is grounded and
  this one was moving down; in that case this one bounces, which with elasticity 0 leaves it
  the vertical velocity 0, and the other keeps its velocity.
\<close>

theorem inelastic_common_velocity:
  assumes "this \<noteq> other" "this < length h" "other < length h"
    and "0 < mass (h ! this)" "0 < mass (h ! other)"
    and "elasticity (h ! this) = 0" "elasticity (h ! other) = 0"
  shows "map_option (\<lambda>h'. (xv (velocity (h' ! this)), xv (velocity (h' ! other)))) (resolveX sb oldPos this other h)
           = Some ((mass (h ! this) * xv (velocity (h ! this)) + mass (h ! other) * xv (velocity (h ! other)))
                     / (mass (h ! this) + mass (h ! other)),
                   (mass (h ! this) * xv (velocity (h ! this)) + mass (h ! other) * xv (velocity (h ! other)))
                     / (mass (h ! this) + mass (h ! other))) \<and>
         map_option (\<lambda>h'. (yv (velocity (h' ! this)), yv (velocity (h' ! other)))) (resolveY sb oldPos wasMovingDown this other h)
           = (if groundObject (h ! other) \<noteq> NoGround \<and> wasMovingDown
              then Some (0, yv (velocity (h ! other)))
              else Some ((mass (h ! this) * yv (velocity (h ! this)) + mass (h ! other) * yv (velocity (h ! other)))
                     / (mass (h ! this) + mass (h ! other)),
                   (mass (h ! this) * yv (velocity (h ! this)) + mass (h ! other) * yv (velocity (h ! other)))
                     / (mass (h ! this) + mass (h ! other))))"
  using assms
  by (simp add: resolveX_def resolveY_def Let_def elasticBlend_inelastic)

theorem inelastic_common_velocity_witness:
  "map_option (\<lambda>h'. (xv (velocity (h' ! 0)), xv (velocity (h' ! 1))))
     (resolveX (Vector2 2 2) (Vector2 0 0) 0 1 inelasticPair) = Some (- 1/4, - 1/4) \<and>
   map_option (\<lambda>h'. (yv (velocity (h' ! 0)), yv (velocity (h' ! 1))))
     (resolveY (Vector2 2 2) (Vector2 0 0) False 0 1 inelasticPair) = Some (1/2, 1/2) \<and>
   map_option (\<lambda>h'. (yv (velocity (h' ! 0)), yv (velocity (h' ! 1))))
     (resolveY (Vector2 2 2) (Vector2 0 0) True 0 1 (inelasticPair[1 := (inelasticPair ! 1)\<lparr>groundObject := GroundTile\<rparr>]))
       = Some (0, 1/3)"
  using inelastic_common_velocity [of 0 1 inelasticPair "Vector2 2 2" "Vector2 0 0" False]
    inelastic_common_velocity [of 0 1 "inelasticPair[1 := (inelasticPair ! 1)\<lparr>groundObject := GroundTile\<rparr>]"
      "Vector2 2 2" "Vector2 0 0" True]
  by (simp add: inelasticPair_def b0_def Vector2_def)




lemma copy_id: "copy p = p"
  by (simp add: copy_def Vector2_def)

lemma integrate_fixedPart: "fixedPart (integrate e t) = fixedPart t"
  by (simp add: integrate_def Let_def)

lemma integrate_mass: "mass (integrate e t) = mass t"
  using fixedPart_fields(1) [OF integrate_fixedPart] .

lemma applyFriction_frame: "frame this h (applyFriction this h)"
  by (cases "groundObject (h ! this)") (simp_all add: applyFriction_def Let_def frame_refl frame_this)

lemma tileCollide_fixedPart: "fixedPart (tileCollide e oldPos wmd this t) = fixedPart t"
  by (simp add: tileCollide_def Let_def)

lemma Vector2_upd: "p\<lparr>xv := a\<rparr> = Vector2 a (yv p)" "p\<lparr>yv := b\<rparr> = Vector2 (xv p) b"
  by (simp_all add: Vector2_def)

lemma tileCollide_pos:
  "pos (tileCollide e oldPos wmd this t) =
     (if tileCollisionTest e (pos t) (sizeV t) this \<and> \<not> tileCollisionTest e oldPos (sizeV t) this
      then Vector2
        (if tileCollisionTest e (Vector2 (xv (pos t)) (yv oldPos)) (sizeV t) this then xv oldPos else xv (pos t))
        (if tileCollisionTest e (Vector2 (xv oldPos) (yv (pos t))) (sizeV t) this \<or>
            \<not> tileCollisionTest e (Vector2 (xv (pos t)) (yv oldPos)) (sizeV t) this then yv oldPos else yv (pos t))
      else pos t)"
  by (simp add: tileCollide_def Let_def Vector2_def)

lemma tileCollide_safe:
  assumes "\<not> tileCollisionTest e oldPos (sizeV t) this"
  shows "\<not> tileCollisionTest e (pos (tileCollide e oldPos wmd this t)) (sizeV (tileCollide e oldPos wmd this t)) this"
proof -
  have s: "sizeV (tileCollide e oldPos wmd this t) = sizeV t"
    using tileCollide_fixedPart by (rule fixedPart_fields(2))
  have o: "Vector2 (xv oldPos) (yv oldPos) = oldPos"
    by (simp add: Vector2_def)
  have p: "Vector2 (xv (pos t)) (yv (pos t)) = pos t"
    by (simp add: Vector2_def)
  show ?thesis
    unfolding s tileCollide_pos using assms by (auto simp: o p)
qed

text \<open>\<open>update\<close> of an object without parent, with the solver on and a mass: friction, the
  loop over the solid objects and the tile pass, in a row.\<close>

lemma update_solver:
  assumes "parent (heap w ! this) = None" "enablePhysicsSolver e" "mass (heap w ! this) \<noteq> 0"
  shows "update e this w =
     (let oldPos = pos (heap w ! this);
          h1 = (heap w)[this := integrate e (heap w ! this)];
          wasMovingDown = (yv (velocity (h1 ! this)) < 0);
          w2 = w\<lparr>heap := applyFriction this h1\<rparr>
      in case (if collideSolidObjects (heap w2 ! this)
               then collideLoop e oldPos wasMovingDown this (engineObjectsCollide w2) w2
               else Some w2) of
           None \<Rightarrow> None
         | Some w3 \<Rightarrow>
             (if collideTiles (heap w3 ! this)
              then Some (w3\<lparr>heap := (heap w3)[this := tileCollide e oldPos wasMovingDown this (heap w3 ! this)]\<rparr>)
              else Some w3))"
proof -
  have "mass ((heap w)[this := integrate e (heap w ! this)] ! this) = mass (heap w ! this)"
    by (rule nth_list_update_field) (rule integrate_mass)
  with assms show ?thesis
    by (simp add: update_def Let_def copy_id)
qed

lemma update_fixed:
  assumes "parent (heap w ! this) = None" "\<not> enablePhysicsSolver e \<or> mass (heap w ! this) = 0"
  shows "update e this w = Some (w\<lparr>heap := (heap w)[this := integrate e (heap w ! this)]\<rparr>)"
proof -
  have "mass ((heap w)[this := integrate e (heap w ! this)] ! this) = mass (heap w ! this)"
    by (rule nth_list_update_field) (rule integrate_mass)
  with assms show ?thesis
    by (auto simp: update_def Let_def)
qed

lemma update_frame:
  assumes "update e this w = Some w'"
  shows "frame this (heap w) (heap w')"
proof (cases "parent (heap w ! this)")
  case (Some p)
  with assms have "\<exists>t'. heap w' = (heap w)[this := t'] \<and> fixedPart t' = fixedPart (heap w ! this)"
    by (auto simp: update_def Let_def)
  then show ?thesis
    by (auto intro: frame_this)
next
  case None
  have i: "frame this (heap w) ((heap w)[this := integrate e (heap w ! this)])"
    by (rule frame_this) (rule integrate_fixedPart)
  show ?thesis
  proof (cases "\<not> enablePhysicsSolver e \<or> mass (heap w ! this) = 0")
    case True
    from update_fixed [OF None True] assms i show ?thesis
      by auto
  next
    case False
    let ?oldPos = "pos (heap w ! this)"
    let ?h1 = "(heap w)[this := integrate e (heap w ! this)]"
    let ?wmd = "yv (velocity (?h1 ! this)) < 0"
    let ?w2 = "w\<lparr>heap := applyFriction this ?h1\<rparr>"
    from False None assms obtain w3 where
      l: "(if collideSolidObjects (heap ?w2 ! this)
               then collideLoop e ?oldPos ?wmd this (engineObjectsCollide ?w2) ?w2
               else Some ?w2) = Some w3"
      and t: "w' = (if collideTiles (heap w3 ! this)
          then w3\<lparr>heap := (heap w3)[this := tileCollide e ?oldPos ?wmd this (heap w3 ! this)]\<rparr> else w3)"
      by (auto simp: update_solver Let_def split: option.splits if_splits)
    have 2: "frame this (heap w) (heap ?w2)"
      using frame_trans [OF i applyFriction_frame] by simp
    have 3: "frame this (heap ?w2) (heap w3)"
      using l collideLoop_frame [of e ?oldPos ?wmd this "engineObjectsCollide ?w2" ?w2 w3]
      by (auto simp: frame_refl split: if_splits)
    have 4: "frame this (heap w3) (heap w')"
      unfolding t by (auto intro!: frame_this frame_refl tileCollide_fixedPart)
    from frame_trans [OF frame_trans [OF 2 3] 4] show ?thesis .
  qed
qed

text \<open>
  Claim C4. An object of mass 0 is out of reach of the collision response. As the other
  object of an \<open>update\<close> it is left exactly as it was (position and velocity included); as the
  updating object it is only integrated: \<open>update\<close> returns before the solver.
\<close>

theorem massless_body_untouched:
  assumes "update e this w = Some w'" and "mass (heap w ! r) = 0"
  shows "(r \<noteq> this \<longrightarrow> heap w' ! r = heap w ! r) \<and>
         (r = this \<and> parent (heap w ! r) = None \<longrightarrow>
            w' = w\<lparr>heap := (heap w)[this := integrate e (heap w ! this)]\<rparr>)"
proof -
  have "heap w' ! r = heap w ! r" if "r \<noteq> this"
    using that assms(2) by (rule frameD(4) [OF update_frame [OF assms(1)]])
  moreover have "w' = w\<lparr>heap := (heap w)[this := integrate e (heap w ! this)]\<rparr>"
    if "r = this" "parent (heap w ! r) = None"
    using update_fixed [of w this e] that assms by simp
  ultimately show ?thesis
    by blast
qed

theorem massless_body_untouched_witness:
  "update env0 0 groundWorld =
     Some (groundWorld\<lparr>heap := [b0\<lparr>pos := Vector2 0 (1001/1000), velocity := Vector2 0 0, groundObject := GroundObject 1\<rparr>,
                          b0\<lparr>sizeV := Vector2 4 1, mass := 0\<rparr>]\<rparr>) \<and>
   heap groundWorld ! 1 = b0\<lparr>sizeV := Vector2 4 1, mass := 0\<rparr> \<and>
   update env0 1 groundWorld = Some groundWorld"
proof -
  have u: "update env0 0 groundWorld =
     Some (groundWorld\<lparr>heap := [b0\<lparr>pos := Vector2 0 (1001/1000), velocity := Vector2 0 0, groundObject := GroundObject 1\<rparr>,
                          b0\<lparr>sizeV := Vector2 4 1, mass := 0\<rparr>]\<rparr>)"
    by (simp add: update_eval groundWorld_def)
  have v: "update env0 1 groundWorld = Some groundWorld"
    by (simp add: update_eval groundWorld_def)
  have m: "mass (heap groundWorld ! 1) = 0"
    by (simp add: groundWorld_def)
  from massless_body_untouched [OF u m] massless_body_untouched [OF v m] u v show ?thesis
    by (simp add: groundWorld_def)
qed

text \<open>
  Claim C1. For an object that collides with tiles and whose position before the tick did
  not overlap a blocked tile, the position \<open>update\<close> leaves does not overlap one either. The
  tile pass runs for an object without parent and with a mass, with the solver on;
  \<open>tileCollisionTest\<close> is a predicate of the position, the size and the object.
\<close>

theorem tile_collision_no_new_overlap:
  assumes "update e this w = Some w'"
    and "this < length (heap w)" "parent (heap w ! this) = None"
    and "enablePhysicsSolver e" "mass (heap w ! this) \<noteq> 0"
    and "collideTiles (heap w ! this)"
    and "\<not> tileCollisionTest e (pos (heap w ! this)) (sizeV (heap w ! this)) this"
  shows "\<not> tileCollisionTest e (pos (heap w' ! this)) (sizeV (heap w' ! this)) this"
proof -
  let ?oldPos = "pos (heap w ! this)"
  let ?h1 = "(heap w)[this := integrate e (heap w ! this)]"
  let ?wmd = "yv (velocity (?h1 ! this)) < 0"
  let ?w2 = "w\<lparr>heap := applyFriction this ?h1\<rparr>"
  from assms(1,3,4,5) obtain w3 where
    l: "(if collideSolidObjects (heap ?w2 ! this)
             then collideLoop e ?oldPos ?wmd this (engineObjectsCollide ?w2) ?w2
             else Some ?w2) = Some w3"
    and t: "w' = (if collideTiles (heap w3 ! this)
        then w3\<lparr>heap := (heap w3)[this := tileCollide e ?oldPos ?wmd this (heap w3 ! this)]\<rparr> else w3)"
    by (auto simp: update_solver Let_def split: option.splits if_splits)
  have i: "frame this (heap w) ?h1"
    by (rule frame_this) (rule integrate_fixedPart)
  have 2: "frame this (heap w) (heap ?w2)"
    using frame_trans [OF i applyFriction_frame] by simp
  have 3: "frame this (heap ?w2) (heap w3)"
    using l collideLoop_frame [of e ?oldPos ?wmd this "engineObjectsCollide ?w2" ?w2 w3]
    by (auto simp: frame_refl split: if_splits)
  note f = frame_trans [OF 2 3]
  have len: "this < length (heap w3)"
    using frameD(1) [OF f] assms(2) by simp
  have fp: "fixedPart (heap w3 ! this) = fixedPart (heap w ! this)"
    by (rule frameD(2) [OF f])
  have ct: "collideTiles (heap w3 ! this)"
    using fixedPart_fields(3) [OF fp] assms(6) by simp
  have sz: "sizeV (heap w3 ! this) = sizeV (heap w ! this)"
    by (rule fixedPart_fields(2) [OF fp])
  have "heap w' ! this = tileCollide e ?oldPos ?wmd this (heap w3 ! this)"
    using t ct len by simp
  moreover have "\<not> tileCollisionTest e ?oldPos (sizeV (heap w3 ! this)) this"
    using assms(7) sz by simp
  ultimately show ?thesis
    using tileCollide_safe [of e ?oldPos "heap w3 ! this" this ?wmd] by simp
qed

theorem tile_collision_no_new_overlap_witness:
  "update env0 0 tileWorld =
     Some (tileWorld\<lparr>heap := [b0\<lparr>pos := Vector2 0 (1/2), velocity := Vector2 0 0, groundObject := GroundTile\<rparr>]\<rparr>) \<and>
   tileCollisionTest env0 (pos (integrate env0 (heap tileWorld ! 0))) (sizeV (heap tileWorld ! 0)) 0 \<and>
   \<not> tileCollisionTest env0 (Vector2 0 (1/2)) (Vector2 1 1) 0"
proof -
  have u: "update env0 0 tileWorld =
     Some (tileWorld\<lparr>heap := [b0\<lparr>pos := Vector2 0 (1/2), velocity := Vector2 0 0, groundObject := GroundTile\<rparr>]\<rparr>)"
    by (simp add: update_eval tileWorld_def)
  have i: "tileCollisionTest env0 (pos (integrate env0 (heap tileWorld ! 0))) (sizeV (heap tileWorld ! 0)) 0"
    by (simp add: update_eval tileWorld_def)
  from tile_collision_no_new_overlap [OF u] u i show ?thesis
    by (simp add: tileWorld_def b0_def env0_def Vector2_def)
qed

lemma elasticBlend_None_iff: "elasticBlend m0 v0 e0 m1 v1 e1 = None \<longleftrightarrow> m0 + m1 = 0"
  by (simp add: elasticBlend_def Let_def)

lemma resolveY_defined:
  assumes "0 < mass (h ! this)" "0 \<le> mass (h ! other)"
  shows "resolveY sb oldPos wmd this other h \<noteq> None"
proof -
  have "mass (h ! this) + mass (h ! other) \<noteq> 0"
    using assms by simp
  then show ?thesis
    by (simp add: resolveY_def Let_def elasticBlend_def)
qed

lemma resolveX_defined:
  assumes "0 < mass (h ! this)" "0 \<le> mass (h ! other)"
  shows "resolveX sb oldPos this other h \<noteq> None"
proof -
  have "mass (h ! this) + mass (h ! other) \<noteq> 0"
    using assms by simp
  then show ?thesis
    by (simp add: resolveX_def Let_def elasticBlend_def)
qed

lemma resolveAxes_defined:
  assumes "0 < mass (h ! this)" "0 \<le> mass (h ! other)"
  shows "resolveAxes e oldPos wmd this other h \<noteq> None"
proof -
  let ?sb = "add (sizeV (h ! this)) (sizeV (h ! other))"
  have x: "resolveX ?sb oldPos this other h1 \<noteq> None" if "frame this h h1" for h1
    using assms frameD(3) [OF that, of this] frameD(3) [OF that, of other]
    by (intro resolveX_defined) simp_all
  show ?thesis
  proof (cases "resolveY ?sb oldPos wmd this other h")
    case None
    with resolveY_defined [OF assms, of ?sb oldPos wmd] show ?thesis by simp
  next
    case (Some h1)
    from x [OF resolveY_frame [OF Some]] x [OF frame_refl] Some show ?thesis
      by (simp add: resolveAxes_def Let_def)
  qed
qed

lemma collideStep_defined:
  assumes "0 < mass (heap w ! this)" "0 \<le> mass (heap w ! other)"
  shows "collideStep e oldPos wmd this other w \<noteq> None"
  using collideStep_cases [of e oldPos wmd this other w] resolveAxes_defined [OF assms, of e oldPos wmd]
  by auto

lemma collideLoop_defined:
  assumes "0 < mass (heap w ! this)" "\<forall>r \<in> set os. 0 \<le> mass (heap w ! r)"
  shows "collideLoop e oldPos wmd this os w \<noteq> None"
  using assms
proof (induction os arbitrary: w)
  case Nil
  then show ?case by simp
next
  case (Cons other os)
  from Cons.prems have "collideStep e oldPos wmd this other w \<noteq> None"
    by (intro collideStep_defined) simp_all
  then obtain w1 where 1: "collideStep e oldPos wmd this other w = Some w1"
    by auto
  have m: "mass (heap w1 ! r) = mass (heap w ! r)" for r
    using collideStep_frame [OF 1] by (auto dest: frameD(3))
  from Cons.prems have "collideLoop e oldPos wmd this os w1 \<noteq> None"
    by (intro Cons.IH) (simp_all add: m)
  with 1 show ?case
    by simp
qed

text \<open>
  Claim C6. The mass formulas never divide by zero: with no negative mass in the store,
  \<open>update\<close> never leaves the reals (\<open>elasticBlend\<close> is \<open>None\<close> exactly when the sum of the two
  masses is 0). The updating object has a mass other than 0, since \<open>update\<close> returns before the
  solver otherwise, and the other object has one where the formulas are reached, so the sum
  is positive.
\<close>

theorem mass_formulas_defined:
  assumes "\<forall>b \<in> set (heap w). 0 \<le> mass b"
    and "this < length (heap w)" "\<forall>r \<in> set (engineObjectsCollide w). r < length (heap w)"
  shows "update e this w \<noteq> None"
proof (cases "parent (heap w ! this) = None \<and> enablePhysicsSolver e \<and> mass (heap w ! this) \<noteq> 0")
  case False
  then show ?thesis
    using update_fixed [of w this e] by (cases "parent (heap w ! this)") (auto simp: update_def Let_def)
next
  case True
  let ?oldPos = "pos (heap w ! this)"
  let ?h1 = "(heap w)[this := integrate e (heap w ! this)]"
  let ?wmd = "yv (velocity (?h1 ! this)) < 0"
  let ?w2 = "w\<lparr>heap := applyFriction this ?h1\<rparr>"
  have i: "frame this (heap w) ?h1"
    by (rule frame_this) (rule integrate_fixedPart)
  have 2: "frame this (heap w) (heap ?w2)"
    using frame_trans [OF i applyFriction_frame] by simp
  have m: "mass (heap ?w2 ! r) = mass (heap w ! r)" for r
    by (rule frameD(3) [OF 2])
  have nn: "0 \<le> mass (heap w ! r)" if "r < length (heap w)" for r
    using assms(1) that by simp
  have "0 < mass (heap ?w2 ! this)"
    using True nn [OF assms(2)] unfolding m by simp
  moreover have "\<forall>r \<in> set (engineObjectsCollide ?w2). 0 \<le> mass (heap ?w2 ! r)"
    using assms(3) nn unfolding m by simp
  ultimately have "collideLoop e ?oldPos ?wmd this (engineObjectsCollide ?w2) ?w2 \<noteq> None"
    by (rule collideLoop_defined)
  with True show ?thesis
    by (auto simp: update_solver Let_def split: option.splits)
qed

theorem mass_formulas_defined_witness:
  "update env0 0 pairWorld =
     Some (pairWorld\<lparr>heap := [b0\<lparr>pos := Vector2 (199/1000) 0, velocity := Vector2 (1/8) 0\<rparr>,
                        b0\<lparr>pos := Vector2 (6/5) 0, mass := 3, velocity := Vector2 (1/8) 0\<rparr>]\<rparr>)"
proof -
  have "update env0 0 pairWorld \<noteq> None"
    using mass_formulas_defined [of pairWorld 0 env0] by (simp add: pairWorld_def b0_def)
  then show ?thesis
    by (simp add: update_eval pairWorld_def)
qed

lemma abs_js_abs: "abs_js a = \<bar>a\<bar>"
  by (simp add: abs_js_def)

lemma resolveY_pos:
  assumes "resolveY sb oldPos wmd this other h = Some h'" "this \<noteq> other" "this < length h"
  shows "pos (h' ! this) = (pos (h ! this))\<lparr>yv := yv (pos (h ! other)) + (yv sb / 2 + epsilon) * sign_js (yv oldPos - yv (pos (h ! other)))\<rparr>"
    and "pos (h' ! other) = pos (h ! other)"
proof -
  define t1 where "t1 = (h ! this)\<lparr>pos := (pos (h ! this))\<lparr>yv := yv (pos (h ! other)) + (yv sb / 2 + epsilon) * sign_js (yv oldPos - yv (pos (h ! other)))\<rparr>\<rparr>"
  have p1: "pos t1 = (pos (h ! this))\<lparr>yv := yv (pos (h ! other)) + (yv sb / 2 + epsilon) * sign_js (yv oldPos - yv (pos (h ! other)))\<rparr>"
    by (simp add: t1_def)
  have "\<exists>t' ob'. pos t' = pos t1 \<and> pos ob' = pos (h ! other) \<and> (h' = h[this := t'] \<or> h' = h[this := t', other := ob'])"
  proof (cases "(groundObject (h ! other) \<noteq> NoGround \<and> wmd) \<or> mass (h ! other) = 0")
    case True
    define t2 where "t2 = (if wmd then t1\<lparr>groundObject := GroundObject other\<rparr> else t1)"
    have f2: "pos t2 = pos t1"
      by (simp add: t2_def)
    from True assms(1) have "h' = h[this := t2\<lparr>velocity := (velocity t2)\<lparr>yv := yv (velocity t2) * - elasticity t2\<rparr>\<rparr>]"
      unfolding resolveY_def Let_def t1_def [symmetric] t2_def [symmetric] by simp
    with f2 show ?thesis
      by (intro exI [of _ "t2\<lparr>velocity := (velocity t2)\<lparr>yv := yv (velocity t2) * - elasticity t2\<rparr>\<rparr>"] exI [of _ "h ! other"]) simp
  next
    case False
    from False assms(1) obtain v0 v1 where
      "h' = h[this := t1\<lparr>velocity := (velocity t1)\<lparr>yv := v0\<rparr>\<rparr>,
              other := (h ! other)\<lparr>velocity := (velocity (h ! other))\<lparr>yv := v1\<rparr>\<rparr>]"
      unfolding resolveY_def Let_def t1_def [symmetric] by (auto split: option.splits prod.splits)
    then show ?thesis
      by (intro exI [of _ "t1\<lparr>velocity := (velocity t1)\<lparr>yv := v0\<rparr>\<rparr>"]
          exI [of _ "(h ! other)\<lparr>velocity := (velocity (h ! other))\<lparr>yv := v1\<rparr>\<rparr>"]) simp
  qed
  then obtain t' ob' where s: "pos t' = pos t1" "pos ob' = pos (h ! other)"
    "h' = h[this := t'] \<or> h' = h[this := t', other := ob']"
    by blast
  from s(3) assms(2,3) have "h' ! this = t'"
    by auto
  with s(1) p1 show "pos (h' ! this) = (pos (h ! this))\<lparr>yv := yv (pos (h ! other)) + (yv sb / 2 + epsilon) * sign_js (yv oldPos - yv (pos (h ! other)))\<rparr>"
    by simp
  have a: "pos (h[this := t'] ! other) = pos (h ! other)"
    using assms(2) by simp
  have "pos (h[this := t', other := ob'] ! other) = pos (h[this := t'] ! other)"
    by (rule nth_list_update_field) (simp add: s(2) a)
  with s(3) a show "pos (h' ! other) = pos (h ! other)"
    by auto
qed

lemma resolveX_pos:
  assumes "resolveX sb oldPos this other h = Some h'" "this \<noteq> other" "this < length h"
  shows "pos (h' ! this) = (pos (h ! this))\<lparr>xv := xv (pos (h ! other)) + (xv sb / 2 + epsilon) * sign_js (xv oldPos - xv (pos (h ! other)))\<rparr>"
    and "pos (h' ! other) = pos (h ! other)"
proof -
  define t1 where "t1 = (h ! this)\<lparr>pos := (pos (h ! this))\<lparr>xv := xv (pos (h ! other)) + (xv sb / 2 + epsilon) * sign_js (xv oldPos - xv (pos (h ! other)))\<rparr>\<rparr>"
  have p1: "pos t1 = (pos (h ! this))\<lparr>xv := xv (pos (h ! other)) + (xv sb / 2 + epsilon) * sign_js (xv oldPos - xv (pos (h ! other)))\<rparr>"
    by (simp add: t1_def)
  have "\<exists>t' ob'. pos t' = pos t1 \<and> pos ob' = pos (h ! other) \<and> (h' = h[this := t'] \<or> h' = h[this := t', other := ob'])"
  proof (cases "mass (h ! other) = 0")
    case True
    with assms(1) have "h' = h[this := t1\<lparr>velocity := (velocity t1)\<lparr>xv := xv (velocity t1) * - elasticity t1\<rparr>\<rparr>]"
      unfolding resolveX_def Let_def t1_def [symmetric] by simp
    then show ?thesis
      by (intro exI [of _ "t1\<lparr>velocity := (velocity t1)\<lparr>xv := xv (velocity t1) * - elasticity t1\<rparr>\<rparr>"] exI [of _ "h ! other"]) simp
  next
    case False
    from False assms(1) obtain v0 v1 where
      "h' = h[this := t1\<lparr>velocity := (velocity t1)\<lparr>xv := v0\<rparr>\<rparr>,
              other := (h ! other)\<lparr>velocity := (velocity (h ! other))\<lparr>xv := v1\<rparr>\<rparr>]"
      unfolding resolveX_def Let_def t1_def [symmetric] by (auto split: option.splits prod.splits)
    then show ?thesis
      by (intro exI [of _ "t1\<lparr>velocity := (velocity t1)\<lparr>xv := v0\<rparr>\<rparr>"]
          exI [of _ "(h ! other)\<lparr>velocity := (velocity (h ! other))\<lparr>xv := v1\<rparr>\<rparr>"]) simp
  qed
  then obtain t' ob' where s: "pos t' = pos t1" "pos ob' = pos (h ! other)"
    "h' = h[this := t'] \<or> h' = h[this := t', other := ob']"
    by blast
  from s(3) assms(2,3) have "h' ! this = t'"
    by auto
  with s(1) p1 show "pos (h' ! this) = (pos (h ! this))\<lparr>xv := xv (pos (h ! other)) + (xv sb / 2 + epsilon) * sign_js (xv oldPos - xv (pos (h ! other)))\<rparr>"
    by simp
  have a: "pos (h[this := t'] ! other) = pos (h ! other)"
    using assms(2) by simp
  have "pos (h[this := t', other := ob'] ! other) = pos (h[this := t'] ! other)"
    by (rule nth_list_update_field) (simp add: s(2) a)
  with s(3) a show "pos (h' ! other) = pos (h ! other)"
    by auto
qed

lemma resolveAxes_spec:
  "resolveAxes e oldPos wmd this other h =
     (case (if resolvesVertically e oldPos (h ! this) (h ! other)
            then resolveY (add (sizeV (h ! this)) (sizeV (h ! other))) oldPos wmd this other h else Some h) of
        None \<Rightarrow> None
      | Some h1 \<Rightarrow>
          (if resolvesHorizontally e oldPos (h ! this) (h ! other)
           then resolveX (add (sizeV (h ! this)) (sizeV (h ! other))) oldPos this other h1 else Some h1))"
proof -
  let ?sb = "add (sizeV (h ! this)) (sizeV (h ! other))"
  have V: "((yv oldPos - yv (pos (h ! other))) * 2 > yv ?sb + gravity e \<or>
      abs_js (xv oldPos - xv (pos (h ! other))) * 2 < xv ?sb \<or>
      \<not> abs_js (yv oldPos - yv (pos (h ! other))) * 2 < yv ?sb) = resolvesVertically e oldPos (h ! this) (h ! other)"
    by (simp add: resolvesVertically_def smallStepUp_def overlappedHorizontally_def overlappedVertically_def
        abs_js_abs add_def Vector2_def mult.commute)
  have H: "(\<not> (yv oldPos - yv (pos (h ! other))) * 2 > yv ?sb + gravity e \<and>
      (abs_js (yv oldPos - yv (pos (h ! other))) * 2 < yv ?sb \<or>
      \<not> abs_js (xv oldPos - xv (pos (h ! other))) * 2 < xv ?sb)) = resolvesHorizontally e oldPos (h ! this) (h ! other)"
    by (simp add: resolvesHorizontally_def smallStepUp_def overlappedHorizontally_def overlappedVertically_def
        abs_js_abs add_def Vector2_def mult.commute)
  show ?thesis
    unfolding resolveAxes_def Let_def by (simp only: V H)
qed

lemma resolveAxes_pos:
  assumes "resolveAxes e oldPos wmd this other h = Some h'" "this \<noteq> other" "this < length h"
  shows "yv (pos (h' ! this)) =
           (if resolvesVertically e oldPos (h ! this) (h ! other)
            then pushedOutY oldPos (h ! this) (h ! other) else yv (pos (h ! this))) \<and>
         xv (pos (h' ! this)) =
           (if resolvesHorizontally e oldPos (h ! this) (h ! other)
            then pushedOutX oldPos (h ! this) (h ! other) else xv (pos (h ! this))) \<and>
         pos (h' ! other) = pos (h ! other)"
proof -
  let ?sb = "add (sizeV (h ! this)) (sizeV (h ! other))"
  let ?V = "resolvesVertically e oldPos (h ! this) (h ! other)"
  let ?H = "resolvesHorizontally e oldPos (h ! this) (h ! other)"
  have sy: "yv (pos (h ! other)) + (yv ?sb / 2 + epsilon) * sign_js (yv oldPos - yv (pos (h ! other)))
              = pushedOutY oldPos (h ! this) (h ! other)"
    and sx: "xv (pos (h ! other)) + (xv ?sb / 2 + epsilon) * sign_js (xv oldPos - xv (pos (h ! other)))
              = pushedOutX oldPos (h ! this) (h ! other)"
    by (simp_all add: add_def Vector2_def pushedOutY_def pushedOutX_def sign_js_def epsilon_def)
  obtain h1 where
    1: "(if ?V then resolveY ?sb oldPos wmd this other h else Some h) = Some h1"
    and 2: "(if ?H then resolveX ?sb oldPos this other h1 else Some h1) = Some h'"
  proof (cases "if ?V then resolveY ?sb oldPos wmd this other h else Some h")
    case None
    with assms(1) show ?thesis
      unfolding resolveAxes_spec by simp
  next
    case (Some h1)
    with assms(1) that [of h1] show ?thesis
      unfolding resolveAxes_spec by simp
  qed
  have p1: "pos (h1 ! this) = (if ?V then (pos (h ! this))\<lparr>yv := pushedOutY oldPos (h ! this) (h ! other)\<rparr> else pos (h ! this))"
    and o1: "pos (h1 ! other) = pos (h ! other)" and l1: "this < length h1"
  proof -
    show "pos (h1 ! this) = (if ?V then (pos (h ! this))\<lparr>yv := pushedOutY oldPos (h ! this) (h ! other)\<rparr> else pos (h ! this))"
    proof (cases ?V)
      case True
      with 1 have "resolveY ?sb oldPos wmd this other h = Some h1" by simp
      from resolveY_pos(1) [OF this assms(2,3)] True show ?thesis
        by (simp only: sy if_True)
    next
      case False
      with 1 show ?thesis by simp
    qed
    show "pos (h1 ! other) = pos (h ! other)"
    proof (cases ?V)
      case True
      with 1 have "resolveY ?sb oldPos wmd this other h = Some h1" by simp
      from resolveY_pos(2) [OF this assms(2,3)] show ?thesis .
    next
      case False
      with 1 show ?thesis by simp
    qed
    show "this < length h1"
    proof (cases ?V)
      case True
      with 1 have "resolveY ?sb oldPos wmd this other h = Some h1" by simp
      from frameD(1) [OF resolveY_frame [OF this]] assms(3) show ?thesis by simp
    next
      case False
      with 1 assms(3) show ?thesis by simp
    qed
  qed
  have p2: "pos (h' ! this) = (if ?H then (pos (h1 ! this))\<lparr>xv := pushedOutX oldPos (h ! this) (h ! other)\<rparr> else pos (h1 ! this))"
    and o2: "pos (h' ! other) = pos (h1 ! other)"
  proof -
    show "pos (h' ! this) = (if ?H then (pos (h1 ! this))\<lparr>xv := pushedOutX oldPos (h ! this) (h ! other)\<rparr> else pos (h1 ! this))"
    proof (cases ?H)
      case True
      with 2 have "resolveX ?sb oldPos this other h1 = Some h'" by simp
      from resolveX_pos(1) [OF this assms(2) l1] True show ?thesis
        by (simp only: o1 sx if_True)
    next
      case False
      with 2 show ?thesis by simp
    qed
    show "pos (h' ! other) = pos (h1 ! other)"
    proof (cases ?H)
      case True
      with 2 have "resolveX ?sb oldPos this other h1 = Some h'" by simp
      from resolveX_pos(2) [OF this assms(2) l1] show ?thesis .
    next
      case False
      with 2 show ?thesis by simp
    qed
  qed
  have "yv (pos (h' ! this)) = (if ?V then pushedOutY oldPos (h ! this) (h ! other) else yv (pos (h ! this)))"
    unfolding p2 p1 by simp
  moreover have "xv (pos (h' ! this)) = (if ?H then pushedOutX oldPos (h ! this) (h ! other) else xv (pos (h ! this)))"
    unfolding p2 p1 by simp
  moreover have "pos (h' ! other) = pos (h ! other)"
    unfolding o2 o1 ..
  ultimately show ?thesis
    by blast
qed

lemma isOverlapping_spec:
  "isOverlapping p (sizeV t) (pos ob) (sizeV ob) \<longleftrightarrow>
     overlappedHorizontally p t ob \<and> overlappedVertically p t ob"
  by (simp add: isOverlapping_def overlappedHorizontally_def overlappedVertically_def abs_js_abs mult.commute)

text \<open>
  Claim C5. Let \<open>this\<close>, an object with mass, meet another object in the pass over the
  colliding objects (one of the two solid, the other neither destroyed nor attached to a
  parent), overlapping it now and not at its old position. Then the pass goes on, and it
  resolves the vertical axis exactly when there is a small step-up, or the objects overlapped
  horizontally at the old position, or they did not overlap vertically there; it resolves
  the horizontal axis exactly when there is no small step-up and the objects overlapped
  vertically at the old position or did not overlap horizontally there. A resolved axis
  shows in the position of \<open>this\<close>: the coordinate is pushed out of the other box, and it is
  kept when the axis is not resolved; the other object stays where it is. One axis at least
  is resolved, and when the objects overlapped on neither axis at the old position, the
  vertical one is.
\<close>

theorem axis_selection:
  assumes "isSolid (heap w ! this) \<or> isSolid (heap w ! other)"
    and "\<not> destroyed (heap w ! other)" "parent (heap w ! other) = None"
    and "this \<noteq> other" "this < length (heap w)"
    and "0 < mass (heap w ! this)" "0 \<le> mass (heap w ! other)"
    and "overlappedHorizontally (pos (heap w ! this)) (heap w ! this) (heap w ! other)"
    and "overlappedVertically (pos (heap w ! this)) (heap w ! this) (heap w ! other)"
    and "\<not> (overlappedHorizontally oldPos (heap w ! this) (heap w ! other) \<and>
            overlappedVertically oldPos (heap w ! this) (heap w ! other))"
  shows "\<exists>h'. collideStep e oldPos wmd this other w = Some (w\<lparr>heap := h'\<rparr>) \<and>
           yv (pos (h' ! this)) =
             (if smallStepUp e oldPos (heap w ! this) (heap w ! other) \<or>
                 overlappedHorizontally oldPos (heap w ! this) (heap w ! other) \<or>
                 \<not> overlappedVertically oldPos (heap w ! this) (heap w ! other)
              then pushedOutY oldPos (heap w ! this) (heap w ! other) else yv (pos (heap w ! this))) \<and>
           xv (pos (h' ! this)) =
             (if \<not> smallStepUp e oldPos (heap w ! this) (heap w ! other) \<and>
                 (overlappedVertically oldPos (heap w ! this) (heap w ! other) \<or>
                  \<not> overlappedHorizontally oldPos (heap w ! this) (heap w ! other))
              then pushedOutX oldPos (heap w ! this) (heap w ! other) else xv (pos (heap w ! this))) \<and>
           pos (h' ! other) = pos (heap w ! other) \<and>
           (yv (pos (h' ! this)) = pushedOutY oldPos (heap w ! this) (heap w ! other) \<or>
            xv (pos (h' ! this)) = pushedOutX oldPos (heap w ! this) (heap w ! other)) \<and>
           (\<not> overlappedHorizontally oldPos (heap w ! this) (heap w ! other) \<and>
            \<not> overlappedVertically oldPos (heap w ! this) (heap w ! other) \<longrightarrow>
              yv (pos (h' ! this)) = pushedOutY oldPos (heap w ! this) (heap w ! other))"
proof -
  let ?h = "heap w"
  have step: "collideStep e oldPos wmd this other w =
      map_option (\<lambda>h'. w\<lparr>heap := h'\<rparr>) (resolveAxes e oldPos wmd this other ?h)"
    using assms(1-4,8-10)
    by (auto simp add: collideStep_def Let_def collideWithObject_def isOverlapping_spec)
  from resolveAxes_defined [OF assms(6,7), of e oldPos wmd]
  obtain h' where r: "resolveAxes e oldPos wmd this other ?h = Some h'"
    by blast
  note p = resolveAxes_pos [OF r assms(4,5)]
  have V: "resolvesVertically e oldPos (?h ! this) (?h ! other) \<longleftrightarrow>
      smallStepUp e oldPos (?h ! this) (?h ! other) \<or>
      overlappedHorizontally oldPos (?h ! this) (?h ! other) \<or>
      \<not> overlappedVertically oldPos (?h ! this) (?h ! other)"
    by (simp add: resolvesVertically_def)
  have H: "resolvesHorizontally e oldPos (?h ! this) (?h ! other) \<longleftrightarrow>
      \<not> smallStepUp e oldPos (?h ! this) (?h ! other) \<and>
      (overlappedVertically oldPos (?h ! this) (?h ! other) \<or>
       \<not> overlappedHorizontally oldPos (?h ! this) (?h ! other))"
    by (simp add: resolvesHorizontally_def)
  have c1: "collideStep e oldPos wmd this other w = Some (w\<lparr>heap := h'\<rparr>)"
    by (simp add: step r)
  note c2 = p [THEN conjunct1, unfolded V]
  note c3 = p [THEN conjunct2, THEN conjunct1, unfolded H]
  note c4 = p [THEN conjunct2, THEN conjunct2]
  have c5: "yv (pos (h' ! this)) = pushedOutY oldPos (?h ! this) (?h ! other) \<or>
            xv (pos (h' ! this)) = pushedOutX oldPos (?h ! this) (?h ! other)"
    using c2 c3 by (auto split: if_splits)
  have c6: "\<not> overlappedHorizontally oldPos (?h ! this) (?h ! other) \<and>
            \<not> overlappedVertically oldPos (?h ! this) (?h ! other) \<longrightarrow>
              yv (pos (h' ! this)) = pushedOutY oldPos (?h ! this) (?h ! other)"
    using c2 by simp
  from c1 c2 c3 c4 c5 c6 show ?thesis
    by (intro exI [of _ h'] conjI)
qed

theorem axis_selection_witness:
  "collideStep env1 (Vector2 (6/5) (9/10)) False 0 1 (boxes (Vector2 (9/10) (9/10)))
     = Some (boxes (Vector2 (9/10) (1001/1000))) \<and>
   collideStep env0 (Vector2 (6/5) (9/10)) False 0 1 (boxes (Vector2 (9/10) (9/10)))
     = Some (boxes (Vector2 (1001/1000) (9/10))) \<and>
   collideStep env0 (Vector2 0 (- 6/5)) False 0 1 (boxes (Vector2 0 (- 7/10)))
     = Some (boxes (Vector2 0 (- 1001/1000))) \<and>
   collideStep env0 (Vector2 (6/5) (- 6/5)) False 0 1 (boxes (Vector2 (9/10) (- 9/10)))
     = Some (boxes (Vector2 (1001/1000) (- 1001/1000)))"
proof -
  note ev = boxes_def env1_def smallStepUp_def overlappedHorizontally_def overlappedVertically_def
    pushedOutY_def pushedOutX_def b0_def env0_def Vector2_def
  have a: "\<exists>h'. collideStep env1 (Vector2 (6/5) (9/10)) False 0 1 (boxes (Vector2 (9/10) (9/10)))
              = Some (boxes (Vector2 (9/10) (9/10))\<lparr>heap := h'\<rparr>) \<and>
             yv (pos (h' ! 0)) = 1001/1000 \<and> xv (pos (h' ! 0)) = 9/10"
    using axis_selection [of "boxes (Vector2 (9/10) (9/10))" 0 1 "Vector2 (6/5) (9/10)" env1 False]
    by (auto simp add: ev)
  have b: "\<exists>h'. collideStep env0 (Vector2 (6/5) (9/10)) False 0 1 (boxes (Vector2 (9/10) (9/10)))
              = Some (boxes (Vector2 (9/10) (9/10))\<lparr>heap := h'\<rparr>) \<and>
             yv (pos (h' ! 0)) = 9/10 \<and> xv (pos (h' ! 0)) = 1001/1000"
    using axis_selection [of "boxes (Vector2 (9/10) (9/10))" 0 1 "Vector2 (6/5) (9/10)" env0 False]
    by (auto simp add: ev)
  have c: "\<exists>h'. collideStep env0 (Vector2 0 (- 6/5)) False 0 1 (boxes (Vector2 0 (- 7/10)))
              = Some (boxes (Vector2 0 (- 7/10))\<lparr>heap := h'\<rparr>) \<and>
             yv (pos (h' ! 0)) = - 1001/1000 \<and> xv (pos (h' ! 0)) = 0"
    using axis_selection [of "boxes (Vector2 0 (- 7/10))" 0 1 "Vector2 0 (- 6/5)" env0 False]
    by (auto simp add: ev)
  have d: "\<exists>h'. collideStep env0 (Vector2 (6/5) (- 6/5)) False 0 1 (boxes (Vector2 (9/10) (- 9/10)))
              = Some (boxes (Vector2 (9/10) (- 9/10))\<lparr>heap := h'\<rparr>) \<and>
             yv (pos (h' ! 0)) = - 1001/1000 \<and> xv (pos (h' ! 0)) = 1001/1000"
    using axis_selection [of "boxes (Vector2 (9/10) (- 9/10))" 0 1 "Vector2 (6/5) (- 6/5)" env0 False]
    by (auto simp add: ev)
  have e: "collideStep env1 (Vector2 (6/5) (9/10)) False 0 1 (boxes (Vector2 (9/10) (9/10)))
     = Some (boxes (Vector2 (9/10) (1001/1000)))"
    "collideStep env0 (Vector2 (6/5) (9/10)) False 0 1 (boxes (Vector2 (9/10) (9/10)))
     = Some (boxes (Vector2 (1001/1000) (9/10)))"
    "collideStep env0 (Vector2 0 (- 6/5)) False 0 1 (boxes (Vector2 0 (- 7/10)))
     = Some (boxes (Vector2 0 (- 1001/1000)))"
    "collideStep env0 (Vector2 (6/5) (- 6/5)) False 0 1 (boxes (Vector2 (9/10) (- 9/10)))
     = Some (boxes (Vector2 (1001/1000) (- 1001/1000)))"
    by (simp_all add: update_eval boxes_def env1_def)
  from a b c d e show ?thesis
    by simp
qed

subsection \<open>Destruction\<close>

lemma refsInRange_nth:
  "refsInRange h \<longleftrightarrow>
     (\<forall>x < length h. (\<forall>c \<in> set (children (h ! x)). c < length h) \<and>
        (\<forall>p. parent (h ! x) = Some p \<longrightarrow> p < length h))"
  unfolding refsInRange_def all_set_conv_all_nth by blast

lemma refsInRange_child: "refsInRange h \<Longrightarrow> x < length h \<Longrightarrow> c \<in> set (children (h ! x)) \<Longrightarrow> c < length h"
  unfolding refsInRange_nth by blast

lemma destroysD:
  assumes "destroys R h h' ds"
  shows "length h' = length h"
    and "x < length h \<Longrightarrow> children (h' ! x) = children (h ! x)"
    and "x < length h \<Longrightarrow> parent (h' ! x) = None \<or> parent (h' ! x) = parent (h ! x)"
    and "x < length h \<Longrightarrow> destroyed (h' ! x) \<longleftrightarrow> destroyed (h ! x) \<or> x \<in> set ds"
    and "distinct ds"
    and "x \<in> set ds \<Longrightarrow> x < length h"
    and "x \<in> set ds \<Longrightarrow> \<not> destroyed (h ! x)"
    and "x \<in> set ds \<Longrightarrow> c \<in> set (children (h ! x)) \<Longrightarrow> c < length h \<and> destroyed (h' ! c)"
    and "x \<in> set ds \<Longrightarrow> \<exists>c \<in> R. (c, x) \<in> (childEdges h)\<^sup>*"
proof -
  note u = assms [unfolded destroys_def]
  note a = u [THEN conjunct1]
    and b = u [THEN conjunct2, THEN conjunct1]
    and c = u [THEN conjunct2, THEN conjunct2, THEN conjunct1]
    and d = u [THEN conjunct2, THEN conjunct2, THEN conjunct2, THEN conjunct1]
    and e = u [THEN conjunct2, THEN conjunct2, THEN conjunct2, THEN conjunct2, THEN conjunct1]
    and f = u [THEN conjunct2, THEN conjunct2, THEN conjunct2, THEN conjunct2, THEN conjunct2]
  from a show "length h' = length h" .
  from b show "x < length h \<Longrightarrow> children (h' ! x) = children (h ! x)" by simp
  from c show "x < length h \<Longrightarrow> parent (h' ! x) = None \<or> parent (h' ! x) = parent (h ! x)" by simp
  from d show "x < length h \<Longrightarrow> destroyed (h' ! x) \<longleftrightarrow> destroyed (h ! x) \<or> x \<in> set ds" by simp
  from e show "distinct ds" .
  from f show "x \<in> set ds \<Longrightarrow> x < length h" by simp
  from f show "x \<in> set ds \<Longrightarrow> \<not> destroyed (h ! x)" by simp
  from f show "x \<in> set ds \<Longrightarrow> c \<in> set (children (h ! x)) \<Longrightarrow> c < length h \<and> destroyed (h' ! c)" by simp
  from f show "x \<in> set ds \<Longrightarrow> \<exists>c \<in> R. (c, x) \<in> (childEdges h)\<^sup>*" by simp
qed

lemma destroysI:
  assumes "length h' = length h"
    and "\<And>x. x < length h \<Longrightarrow> children (h' ! x) = children (h ! x)"
    and "\<And>x. x < length h \<Longrightarrow> parent (h' ! x) = None \<or> parent (h' ! x) = parent (h ! x)"
    and "\<And>x. x < length h \<Longrightarrow> destroyed (h' ! x) \<longleftrightarrow> destroyed (h ! x) \<or> x \<in> set ds"
    and "distinct ds"
    and "\<And>x. x \<in> set ds \<Longrightarrow> x < length h"
    and "\<And>x. x \<in> set ds \<Longrightarrow> \<not> destroyed (h ! x)"
    and "\<And>x c. x \<in> set ds \<Longrightarrow> c \<in> set (children (h ! x)) \<Longrightarrow> c < length h \<and> destroyed (h' ! c)"
    and "\<And>x. x \<in> set ds \<Longrightarrow> \<exists>c \<in> R. (c, x) \<in> (childEdges h)\<^sup>*"
  shows "destroys R h h' ds"
proof -
  have b: "\<forall>x < length h. children (h' ! x) = children (h ! x)"
    using assms(2) by blast
  have c: "\<forall>x < length h. parent (h' ! x) = None \<or> parent (h' ! x) = parent (h ! x)"
    using assms(3) by blast
  have d: "\<forall>x < length h. destroyed (h' ! x) \<longleftrightarrow> destroyed (h ! x) \<or> x \<in> set ds"
    using assms(4) by blast
  have f: "\<forall>x \<in> set ds. x < length h \<and> \<not> destroyed (h ! x) \<and>
        (\<forall>c \<in> set (children (h ! x)). c < length h \<and> destroyed (h' ! c)) \<and>
        (\<exists>c \<in> R. (c, x) \<in> (childEdges h)\<^sup>*)"
  proof (intro ballI conjI)
    fix x assume x: "x \<in> set ds"
    show "x < length h" using x by (rule assms(6))
    show "\<not> destroyed (h ! x)" using x by (rule assms(7))
    show "\<exists>c \<in> R. (c, x) \<in> (childEdges h)\<^sup>*" using x by (rule assms(9))
    fix c assume c: "c \<in> set (children (h ! x))"
    from assms(8) [OF x c] show "c < length h" "destroyed (h' ! c)" by blast+
  qed
  from assms(1) b c d assms(5) f show ?thesis
    unfolding destroys_def by (intro conjI)
qed

lemma destroys_refl: "destroys R h h []"
  by (simp add: destroys_def)

lemma childEdges_eq:
  assumes "length h' = length h" "\<And>x. x < length h \<Longrightarrow> children (h' ! x) = children (h ! x)"
  shows "childEdges h' = childEdges h"
  using assms by (auto simp: childEdges_def)

lemma destroys_childEdges: "destroys R h h' ds \<Longrightarrow> childEdges h' = childEdges h"
  by (rule childEdges_eq) (simp_all add: destroysD(1,2))

lemma destroys_refsInRange:
  assumes "destroys R h h' ds" "refsInRange h"
  shows "refsInRange h'"
  unfolding refsInRange_nth
proof (intro allI impI conjI ballI)
  fix x c assume x: "x < length h'" and "c \<in> set (children (h' ! x))"
  with destroysD(1,2) [OF assms(1)] have "x < length h" "c \<in> set (children (h ! x))"
    by simp_all
  with assms(2) destroysD(1) [OF assms(1)] show "c < length h'"
    by (simp add: refsInRange_child)
next
  fix x p assume x: "x < length h'" and p: "parent (h' ! x) = Some p"
  with destroysD(1) [OF assms(1)] have xl: "x < length h"
    by simp
  with destroysD(3) [OF assms(1) xl] p have "parent (h ! x) = Some p"
    by auto
  with assms(2) xl have "p < length h"
    unfolding refsInRange_nth by blast
  with destroysD(1) [OF assms(1)] show "p < length h'"
    by simp
qed

lemma destroys_trans:
  assumes 1: "destroys R1 h h1 ds1" and 2: "destroys R2 h1 h2 ds2"
  shows "destroys (R1 \<union> R2) h h2 (ds1 @ ds2)"
proof (rule destroysI)
  note l1 = destroysD(1) [OF 1] and l2 = destroysD(1) [OF 2]
  note E = destroys_childEdges [OF 1]
  show "length h2 = length h"
    using l1 l2 by simp
  show "children (h2 ! x) = children (h ! x)" if "x < length h" for x
    using that destroysD(2) [OF 1, of x] destroysD(2) [OF 2, of x] l1 by simp
  show "parent (h2 ! x) = None \<or> parent (h2 ! x) = parent (h ! x)" if "x < length h" for x
    using that destroysD(3) [OF 1, of x] destroysD(3) [OF 2, of x] l1 by auto
  show d: "destroyed (h2 ! x) \<longleftrightarrow> destroyed (h ! x) \<or> x \<in> set (ds1 @ ds2)" if "x < length h" for x
    using that destroysD(4) [OF 1, of x] destroysD(4) [OF 2, of x] l1 by auto
  have "x \<notin> set ds2" if "x \<in> set ds1" for x
    using that destroysD(6) [OF 1 that] destroysD(4) [OF 1, of x] destroysD(7) [OF 2, of x] by auto
  then show "distinct (ds1 @ ds2)"
    using destroysD(5) [OF 1] destroysD(5) [OF 2] by auto
  show "x < length h" if "x \<in> set (ds1 @ ds2)" for x
    using that destroysD(6) [OF 1, of x] destroysD(6) [OF 2, of x] l1 by auto
  show "\<not> destroyed (h ! x)" if "x \<in> set (ds1 @ ds2)" for x
  proof (cases "x \<in> set ds1")
    case True
    then show ?thesis by (rule destroysD(7) [OF 1])
  next
    case False
    with that have x: "x \<in> set ds2" by simp
    from destroysD(6) [OF 2 x] l1 have "x < length h" by simp
    from destroysD(4) [OF 1 this] destroysD(7) [OF 2 x] show ?thesis by simp
  qed
  show "c < length h \<and> destroyed (h2 ! c)" if "x \<in> set (ds1 @ ds2)" "c \<in> set (children (h ! x))" for x c
  proof (cases "x \<in> set ds1")
    case True
    from destroysD(8) [OF 1 True that(2)] have c: "c < length h" "destroyed (h1 ! c)"
      by simp_all
    with destroysD(4) [OF 2, of c] l1 show ?thesis by simp
  next
    case False
    with that have x: "x \<in> set ds2" by simp
    from destroysD(6) [OF 2 x] l1 have "x < length h" by simp
    with that(2) destroysD(2) [OF 1, of x] have "c \<in> set (children (h1 ! x))" by simp
    from destroysD(8) [OF 2 x this] l1 show ?thesis by simp
  qed
  show "\<exists>c \<in> R1 \<union> R2. (c, x) \<in> (childEdges h)\<^sup>*" if "x \<in> set (ds1 @ ds2)" for x
  proof (cases "x \<in> set ds1")
    case True
    from destroysD(9) [OF 1 True] show ?thesis by blast
  next
    case False
    with that have x: "x \<in> set ds2" by simp
    from destroysD(9) [OF 2 x] show ?thesis unfolding E by blast
  qed
qed

lemma destroys_mono: "destroys R h h' ds \<Longrightarrow> R \<subseteq> R' \<Longrightarrow> destroys R' h h' ds"
  unfolding destroys_def by blast

lemma destroys_clear_parent: "destroys R h (h[c := (h ! c)\<lparr>parent := None\<rparr>]) []"
proof (rule destroysI)
  show "children (h[c := (h ! c)\<lparr>parent := None\<rparr>] ! x) = children (h ! x)" for x
    by (rule nth_list_update_field) simp
  show "parent (h[c := (h ! c)\<lparr>parent := None\<rparr>] ! x) = None \<or>
        parent (h[c := (h ! c)\<lparr>parent := None\<rparr>] ! x) = parent (h ! x)" if "x < length h" for x
    using that by (cases "x = c") simp_all
  have "destroyed (h[c := (h ! c)\<lparr>parent := None\<rparr>] ! x) = destroyed (h ! x)" for x
    by (rule nth_list_update_field) simp
  then show "destroyed (h[c := (h ! c)\<lparr>parent := None\<rparr>] ! x) \<longleftrightarrow> destroyed (h ! x) \<or> x \<in> set []" for x
    by simp
qed simp_all

lemma destroys_destroyed_mono: "destroys R h h' ds \<Longrightarrow> x < length h \<Longrightarrow> destroyed (h ! x) \<Longrightarrow> destroyed (h' ! x)"
  by (simp add: destroysD(4))

lemma refsInRange_mark:
  assumes "refsInRange h"
  shows "refsInRange (h[this := (h ! this)\<lparr>destroyed := True\<rparr>])"
proof -
  let ?h1 = "h[this := (h ! this)\<lparr>destroyed := True\<rparr>]"
  have c1: "children (?h1 ! x) = children (h ! x)" for x
    by (rule nth_list_update_field) simp
  have pa1: "parent (?h1 ! x) = parent (h ! x)" for x
    by (rule nth_list_update_field) simp
  have l: "length ?h1 = length h"
    by simp
  from assms show ?thesis
    unfolding refsInRange_nth c1 pa1 l .
qed

lemma destroyChildren_Cons_Some:
  assumes "destroyChildren n (c # cs) h = Some (h', ds)"
  obtains h1 ds1 ds2 where "destroy n c (h[c := (h ! c)\<lparr>parent := None\<rparr>]) = Some (h1, ds1)"
    and "destroyChildren n cs h1 = Some (h', ds2)" and "ds = ds1 @ ds2"
  using assms by (auto split: option.splits prod.splits)

lemma destroy_Suc_Some:
  assumes "destroy (Suc n) this h = Some (h', ds)" "\<not> destroyed (h ! this)"
  obtains ds' where
    "destroyChildren n
       (children ((case parent (h[this := (h ! this)\<lparr>destroyed := True\<rparr>] ! this) of
                     Some p \<Rightarrow> removeChild p this (h[this := (h ! this)\<lparr>destroyed := True\<rparr>])
                   | None \<Rightarrow> h[this := (h ! this)\<lparr>destroyed := True\<rparr>]) ! this))
       (case parent (h[this := (h ! this)\<lparr>destroyed := True\<rparr>] ! this) of
                     Some p \<Rightarrow> removeChild p this (h[this := (h ! this)\<lparr>destroyed := True\<rparr>])
                   | None \<Rightarrow> h[this := (h ! this)\<lparr>destroyed := True\<rparr>]) = Some (h', ds')"
    and "ds = this # ds'"
  using assms by (auto simp: Let_def split: option.splits prod.splits)

text \<open>The loop over the children, given the property for the calls it makes.\<close>

lemma children_step:
  assumes IH: "\<And>this h h' ds. refsInRange h \<Longrightarrow> this < length h \<Longrightarrow> parent (h ! this) = None \<Longrightarrow>
      destroy n this h = Some (h', ds) \<Longrightarrow> destroys {this} h h' ds \<and> destroyed (h' ! this)"
  shows "refsInRange h \<Longrightarrow> set cs \<subseteq> {..<length h} \<Longrightarrow> destroyChildren n cs h = Some (h', ds) \<Longrightarrow>
      destroys (set cs) h h' ds \<and> (\<forall>c \<in> set cs. destroyed (h' ! c))"
proof (induction cs arbitrary: h h' ds)
  case Nil
  then show ?case by (simp add: destroys_refl)
next
  case (Cons c cs)
  let ?h0 = "h[c := (h ! c)\<lparr>parent := None\<rparr>]"
  from Cons.prems(3) obtain h1 ds1 ds2 where
    d1: "destroy n c ?h0 = Some (h1, ds1)" and d2: "destroyChildren n cs h1 = Some (h', ds2)"
    and ds: "ds = ds1 @ ds2"
    by (rule destroyChildren_Cons_Some)
  from Cons.prems(2) have c: "c < length h" and cs: "set cs \<subseteq> {..<length h}"
    by simp_all
  have s0: "destroys {} h ?h0 []"
    by (rule destroys_clear_parent)
  have r0: "refsInRange ?h0"
    using s0 Cons.prems(1) by (rule destroys_refsInRange)
  have "parent (?h0 ! c) = None"
    using c by simp
  with IH [OF r0 _ _ d1] c have s1: "destroys {c} ?h0 h1 ds1" and dc: "destroyed (h1 ! c)"
    by simp_all
  have r1: "refsInRange h1"
    using s1 r0 by (rule destroys_refsInRange)
  have l1: "length h1 = length h"
    using destroysD(1) [OF s1] by simp
  from Cons.IH [OF r1 _ d2] cs l1 have s2: "destroys (set cs) h1 h' ds2"
    and dcs: "\<forall>c \<in> set cs. destroyed (h' ! c)"
    by simp_all
  have "destroys ({c} \<union> set cs) h h' (ds1 @ ds2)"
    using destroys_trans [OF destroys_trans [OF s0 s1] s2] by simp
  then have "destroys (set (c # cs)) h h' ds"
    unfolding ds by simp
  moreover have "destroyed (h' ! c)"
    using dc c l1 by (intro destroys_destroyed_mono [OF s2]) simp_all
  ultimately show ?case
    using dcs by simp
qed

text \<open>One call, given the property for its loop.\<close>

lemma destroy_step:
  assumes IH: "\<And>cs h h' ds. refsInRange h \<Longrightarrow> set cs \<subseteq> {..<length h} \<Longrightarrow>
      destroyChildren n cs h = Some (h', ds) \<Longrightarrow>
      destroys (set cs) h h' ds \<and> (\<forall>c \<in> set cs. destroyed (h' ! c))"
    and r: "refsInRange h" and t: "this < length h" and p: "parent (h ! this) = None"
    and d: "destroy (Suc n) this h = Some (h', ds)"
  shows "destroys {this} h h' ds \<and> destroyed (h' ! this)"
proof (cases "destroyed (h ! this)")
  case True
  with d show ?thesis
    by (simp add: destroys_refl)
next
  case False
  let ?h1 = "h[this := (h ! this)\<lparr>destroyed := True\<rparr>]"
  let ?cs = "children (h ! this)"
  have p1: "parent (?h1 ! this) = None"
    using t p by simp
  have c1: "children (?h1 ! x) = children (h ! x)" for x
    by (rule nth_list_update_field) simp
  have pa1: "parent (?h1 ! x) = parent (h ! x)" for x
    by (rule nth_list_update_field) simp
  have d1: "destroyed (?h1 ! x) \<longleftrightarrow> destroyed (h ! x) \<or> x = this" if "x < length h" for x
    using that by (cases "x = this") simp_all
  from destroy_Suc_Some [OF d False] obtain ds' where
    dc0: "destroyChildren n (children (?h1 ! this)) ?h1 = Some (h', ds')" and ds: "ds = this # ds'"
    unfolding p1 by auto
  from dc0 have dc: "destroyChildren n ?cs ?h1 = Some (h', ds')"
    unfolding c1 .
  have r1: "refsInRange ?h1"
    using r by (rule refsInRange_mark)
  have csl: "set ?cs \<subseteq> {..<length ?h1}"
    using refsInRange_child [OF r t] by auto
  from IH [OF r1 csl dc] have s: "destroys (set ?cs) ?h1 h' ds'" and dcs: "\<forall>c \<in> set ?cs. destroyed (h' ! c)"
    by simp_all
  have E1: "childEdges ?h1 = childEdges h"
    by (rule childEdges_eq) (simp_all add: c1)
  have nt: "this \<notin> set ds'"
    using destroysD(7) [OF s, of this] d1 [OF t] by auto
  have "destroys {this} h h' (this # ds')"
  proof (rule destroysI)
    show "length h' = length h"
      using destroysD(1) [OF s] by simp
    show "children (h' ! x) = children (h ! x)" if "x < length h" for x
      using destroysD(2) [OF s, of x] that c1 by simp
    show "parent (h' ! x) = None \<or> parent (h' ! x) = parent (h ! x)" if "x < length h" for x
      using destroysD(3) [OF s, of x] that pa1 by simp
    show "destroyed (h' ! x) \<longleftrightarrow> destroyed (h ! x) \<or> x \<in> set (this # ds')" if "x < length h" for x
      using destroysD(4) [OF s, of x] that d1 [OF that] by auto
    show "distinct (this # ds')"
      using nt destroysD(5) [OF s] by simp
    show "x < length h" if "x \<in> set (this # ds')" for x
      using that t destroysD(6) [OF s, of x] by auto
    show "\<not> destroyed (h ! x)" if "x \<in> set (this # ds')" for x
    proof (cases "x = this")
      case True
      with False show ?thesis by simp
    next
      case ne: False
      with that have x: "x \<in> set ds'" by simp
      from destroysD(6) [OF s x] have "x < length h" by simp
      from d1 [OF this] destroysD(7) [OF s x] show ?thesis by simp
    qed
    show "c < length h \<and> destroyed (h' ! c)" if "x \<in> set (this # ds')" "c \<in> set (children (h ! x))" for x c
    proof (cases "x = this")
      case True
      with that(2) dcs refsInRange_child [OF r t, of c] show ?thesis by simp
    next
      case ne: False
      with that have x: "x \<in> set ds'" by simp
      from that(2) have "c \<in> set (children (?h1 ! x))" unfolding c1 .
      from destroysD(8) [OF s x this] show ?thesis by simp
    qed
    show "\<exists>c \<in> {this}. (c, x) \<in> (childEdges h)\<^sup>*" if "x \<in> set (this # ds')" for x
    proof (cases "x = this")
      case True
      then show ?thesis by simp
    next
      case ne: False
      with that have x: "x \<in> set ds'" by simp
      from destroysD(9) [OF s x] obtain c where c: "c \<in> set ?cs" "(c, x) \<in> (childEdges h)\<^sup>*"
        unfolding E1 by blast
      from c(1) t have "(this, c) \<in> childEdges h"
        by (simp add: childEdges_def)
      with c(2) show ?thesis
        by (simp add: converse_rtrancl_into_rtrancl)
    qed
  qed
  moreover have "destroyed (h' ! this)"
    using destroysD(4) [OF s, of this] t d1 [OF t] by simp
  ultimately show ?thesis
    unfolding ds by simp
qed

lemma destroy_core:
  "refsInRange h \<Longrightarrow> this < length h \<Longrightarrow> parent (h ! this) = None \<Longrightarrow>
   destroy n this h = Some (h', ds) \<Longrightarrow> destroys {this} h h' ds \<and> destroyed (h' ! this)"
proof (induction n arbitrary: this h h' ds)
  case 0
  then show ?case by simp
next
  case (Suc n)
  show ?case
    by (rule destroy_step [OF children_step [OF Suc.IH] Suc.prems]) assumption+
qed

lemma destroyChildren_core:
  "refsInRange h \<Longrightarrow> set cs \<subseteq> {..<length h} \<Longrightarrow> destroyChildren n cs h = Some (h', ds) \<Longrightarrow>
   destroys (set cs) h h' ds \<and> (\<forall>c \<in> set cs. destroyed (h' ! c))"
  by (rule children_step [OF destroy_core]) assumption+

text \<open>Enough fuel: each destruction that runs takes an object out of the live ones.\<close>

lemma finite_live: "finite (live h)"
  by (simp add: live_def)

lemma card_live_le: "card (live h) \<le> length h"
proof -
  have "live h \<subseteq> {..<length h}"
    by (auto simp: live_def)
  then have "card (live h) \<le> card {..<length h}"
    by (intro card_mono) simp_all
  then show ?thesis by simp
qed

lemma destroys_live: "destroys R h h' ds \<Longrightarrow> card (live h') \<le> card (live h)"
proof (rule card_mono [OF finite_live])
  assume s: "destroys R h h' ds"
  show "live h' \<subseteq> live h"
    using destroysD(1) [OF s] destroysD(4) [OF s] by (auto simp: live_def)
qed

lemma live_mark:
  assumes "this < length h" "\<not> destroyed (h ! this)"
    and "length h1 = length h" "\<And>x. x < length h \<Longrightarrow> destroyed (h1 ! x) \<longleftrightarrow> destroyed (h ! x) \<or> x = this"
  shows "card (live h1) < card (live h)"
proof (rule psubset_card_mono [OF finite_live])
  have "this \<in> live h" "this \<notin> live h1"
    using assms by (auto simp: live_def)
  moreover have "live h1 \<subseteq> live h"
    using assms(3,4) by (auto simp: live_def)
  ultimately show "live h1 \<subset> live h"
    by blast
qed

lemma children_total:
  assumes IH: "\<And>this h. refsInRange h \<Longrightarrow> this < length h \<Longrightarrow> parent (h ! this) = None \<Longrightarrow>
      card (live h) < n \<Longrightarrow> destroy n this h \<noteq> None"
  shows "refsInRange h \<Longrightarrow> set cs \<subseteq> {..<length h} \<Longrightarrow> card (live h) < n \<Longrightarrow> destroyChildren n cs h \<noteq> None"
proof (induction cs arbitrary: h)
  case Nil
  then show ?case by simp
next
  case (Cons c cs)
  let ?h0 = "h[c := (h ! c)\<lparr>parent := None\<rparr>]"
  from Cons.prems(2) have c: "c < length h" and cs: "set cs \<subseteq> {..<length h}"
    by simp_all
  have s0: "destroys {} h ?h0 []"
    by (rule destroys_clear_parent)
  have r0: "refsInRange ?h0"
    using s0 Cons.prems(1) by (rule destroys_refsInRange)
  have p0: "parent (?h0 ! c) = None"
    using c by simp
  have c0: "c < length ?h0"
    using c by simp
  have k0: "card (live ?h0) < n"
    using destroys_live [OF s0] Cons.prems(3) by simp
  from IH [OF r0 c0 p0 k0] obtain h1 ds1 where d1: "destroy n c ?h0 = Some (h1, ds1)"
    by auto
  from destroy_core [OF r0 c0 p0 d1] have s1: "destroys {c} ?h0 h1 ds1"
    by simp
  have r1: "refsInRange h1"
    using s1 r0 by (rule destroys_refsInRange)
  have l1: "length h1 = length h"
    using destroysD(1) [OF s1] by simp
  have k1: "card (live h1) < n"
    using destroys_live [OF s1] k0 by simp
  from Cons.IH [OF r1 _ k1] cs l1 have "destroyChildren n cs h1 \<noteq> None"
    by simp
  with d1 show ?case
    by auto
qed

lemma destroy_total:
  "refsInRange h \<Longrightarrow> this < length h \<Longrightarrow> parent (h ! this) = None \<Longrightarrow> card (live h) < n \<Longrightarrow>
   destroy n this h \<noteq> None"
proof (induction n arbitrary: this h)
  case 0
  then show ?case by simp
next
  case (Suc n)
  show ?case
  proof (cases "destroyed (h ! this)")
    case True
    then show ?thesis by simp
  next
    case False
    let ?h1 = "h[this := (h ! this)\<lparr>destroyed := True\<rparr>]"
    have p1: "parent (?h1 ! this) = None"
      using Suc.prems(2,3) by simp
    have c1: "children (?h1 ! x) = children (h ! x)" for x
      by (rule nth_list_update_field) simp
    have d1: "destroyed (?h1 ! x) \<longleftrightarrow> destroyed (h ! x) \<or> x = this" if "x < length h" for x
      using that by (cases "x = this") simp_all
    have "card (live ?h1) < card (live h)"
      using Suc.prems(2) False _ d1 by (rule live_mark) simp
    with Suc.prems(4) have k: "card (live ?h1) < n"
      by simp
    have r1: "refsInRange ?h1"
      using Suc.prems(1) by (rule refsInRange_mark)
    have csl: "set (children (h ! this)) \<subseteq> {..<length ?h1}"
      using refsInRange_child [OF Suc.prems(1,2)] by auto
    have "destroyChildren n (children (h ! this)) ?h1 \<noteq> None"
    proof (rule children_total)
      show "destroy n this h \<noteq> None"
        if "refsInRange h" "this < length h" "parent (h ! this) = None" "card (live h) < n" for this h
        using that by (rule Suc.IH)
    qed (fact r1 csl k)+
    then show ?thesis
      using False by (auto simp: p1 c1 Let_def)
  qed
qed

lemma destroyChildren_total:
  "refsInRange h \<Longrightarrow> set cs \<subseteq> {..<length h} \<Longrightarrow> card (live h) < n \<Longrightarrow> destroyChildren n cs h \<noteq> None"
  by (rule children_total [OF destroy_total])

lemma removeChild_props:
  assumes "p < length h" "c < length h" "c \<in> set (children (h ! p))"
  shows "length (removeChild p c h) = length h"
    and "x < length h \<Longrightarrow> children (removeChild p c h ! x) = (if x = p then remove1 c (children (h ! p)) else children (h ! x))"
    and "x < length h \<Longrightarrow> destroyed (removeChild p c h ! x) = destroyed (h ! x)"
    and "x < length h \<Longrightarrow> parent (removeChild p c h ! x) = (if x = c then None else parent (h ! x))"
  using assms by (auto simp: removeChild_def Let_def nth_list_update)

lemma reach_without_back_edges:
  assumes "E2 \<subseteq> E" and "\<And>y z. (y, z) \<in> E \<Longrightarrow> z \<noteq> r \<Longrightarrow> (y, z) \<in> E2"
  shows "(r, x) \<in> E\<^sup>* \<longleftrightarrow> (r, x) \<in> E2\<^sup>*"
proof
  assume "(r, x) \<in> E\<^sup>*"
  then show "(r, x) \<in> E2\<^sup>*"
  proof (induction rule: rtrancl_induct)
    case base
    then show ?case by simp
  next
    case (step y z)
    show ?case
    proof (cases "z = r")
      case True
      then show ?thesis by simp
    next
      case False
      with step.hyps(2) have "(y, z) \<in> E2" by (rule assms(2))
      with step.IH show ?thesis by (rule rtrancl_into_rtrancl)
    qed
  qed
next
  assume "(r, x) \<in> E2\<^sup>*"
  with rtrancl_mono [OF assms(1)] show "(r, x) \<in> E\<^sup>*"
    by blast
qed

lemma descendants_rtrancl: "x \<in> insert r (descendants h r) \<longleftrightarrow> (r, x) \<in> (childEdges h)\<^sup>*"
  unfolding descendants_def by (auto dest: rtranclD intro: trancl_into_rtrancl)

text \<open>The store after the mark and the detachment from the parent, before the loop.\<close>

lemma detach_props:
  assumes r: "refsInRange h" and t: "this < length h"
    and pc0: "\<forall>p. parent (h ! this) = Some p \<longrightarrow> this \<in> set (children (h ! p))"
  defines "h1 \<equiv> h[this := (h ! this)\<lparr>destroyed := True\<rparr>]"
  defines "h2 \<equiv> (case parent (h1 ! this) of Some p \<Rightarrow> removeChild p this h1 | None \<Rightarrow> h1)"
  shows "length h2 = length h"
    and "x < length h \<Longrightarrow> destroyed (h2 ! x) \<longleftrightarrow> destroyed (h ! x) \<or> x = this"
    and "x < length h \<Longrightarrow> children (h2 ! x) =
          (if parent (h ! this) = Some x then remove1 this (children (h ! x)) else children (h ! x))"
    and "parent (h2 ! this) = None"
    and "x < length h \<Longrightarrow> parent (h2 ! x) = None \<or> parent (h2 ! x) = parent (h ! x)"
proof -
  from pc0 have pc: "this \<in> set (children (h ! p))" if "parent (h ! this) = Some p" for p
    using that by blast
  have c1: "children (h1 ! x) = children (h ! x)" for x
    unfolding h1_def by (rule nth_list_update_field) simp
  have pa1: "parent (h1 ! x) = parent (h ! x)" for x
    unfolding h1_def by (rule nth_list_update_field) simp
  have d1: "destroyed (h1 ! x) \<longleftrightarrow> destroyed (h ! x) \<or> x = this" if "x < length h" for x
    using that unfolding h1_def by (cases "x = this") simp_all
  have l1: "length h1 = length h"
    unfolding h1_def by simp
  have all: "length h2 = length h \<and>
      (\<forall>x < length h. destroyed (h2 ! x) \<longleftrightarrow> destroyed (h ! x) \<or> x = this) \<and>
      (\<forall>x < length h. children (h2 ! x) =
          (if parent (h ! this) = Some x then remove1 this (children (h ! x)) else children (h ! x))) \<and>
      parent (h2 ! this) = None \<and>
      (\<forall>x < length h. parent (h2 ! x) = None \<or> parent (h2 ! x) = parent (h ! x))"
  proof (cases "parent (h ! this)")
    case None
    then have h2: "h2 = h1"
      unfolding h2_def pa1 by simp
    show ?thesis
      unfolding h2 using l1 d1 c1 pa1 None by simp
  next
    case (Some p)
    then have h2: "h2 = removeChild p this h1"
      unfolding h2_def pa1 by simp
    from r t Some have p: "p < length h1"
      unfolding refsInRange_nth l1 by blast
    from t have t1: "this < length h1"
      unfolding l1 .
    from pc [OF Some] have m: "this \<in> set (children (h1 ! p))"
      unfolding c1 .
    note rp = removeChild_props [OF p t1 m]
    have "length h2 = length h"
      unfolding h2 rp(1) by (rule l1)
    moreover have "destroyed (h2 ! x) \<longleftrightarrow> destroyed (h ! x) \<or> x = this" if "x < length h" for x
      unfolding h2 using that rp(3) [of x] d1 [of x] l1 by simp
    moreover have "children (h2 ! x) =
          (if parent (h ! this) = Some x then remove1 this (children (h ! x)) else children (h ! x))"
      if "x < length h" for x
      unfolding h2 using that rp(2) [of x] l1 Some by (auto simp: c1)
    moreover have "parent (h2 ! this) = None"
      unfolding h2 using rp(4) [of this] t1 by simp
    moreover have "parent (h2 ! x) = None \<or> parent (h2 ! x) = parent (h ! x)" if "x < length h" for x
      unfolding h2 using that rp(4) [of x] l1 pa1 [of x] by simp
    ultimately show ?thesis
      by blast
  qed
  from all show "length h2 = length h" by blast
  from all show "x < length h \<Longrightarrow> destroyed (h2 ! x) \<longleftrightarrow> destroyed (h ! x) \<or> x = this" by blast
  from all show "x < length h \<Longrightarrow> children (h2 ! x) =
          (if parent (h ! this) = Some x then remove1 this (children (h ! x)) else children (h ! x))" by blast
  from all show "parent (h2 ! this) = None" by blast
  from all show "x < length h \<Longrightarrow> parent (h2 ! x) = None \<or> parent (h2 ! x) = parent (h ! x)" by blast
qed

text \<open>
  Claim C7. In a store whose references are in range, with more fuel than objects:
  \<open>destroy\<close> on a destroyed object returns the store as it is (no destruction runs); on an
  object that is not destroyed, whose descendants are not destroyed either and which is in
  the list of children of its parent, \<open>destroy\<close> returns, the object is destroyed and has no
  parent, its parent has lost it from its list of children, every descendant is destroyed,
  the destructions that ran are those of the object and of its descendants, each once, no
  other object changes its \<open>destroyed\<close> flag, and a second call changes nothing.
\<close>

theorem destroy_cascade:
  assumes r: "refsInRange h" and t: "this < length h" and n: "length h < n"
  shows "(destroyed (h ! this) \<longrightarrow> destroy n this h = Some (h, [])) \<and>
         (\<not> destroyed (h ! this) \<and> (\<forall>x \<in> descendants h this. \<not> destroyed (h ! x)) \<and>
          (\<forall>p. parent (h ! this) = Some p \<longrightarrow> this \<in> set (children (h ! p))) \<longrightarrow>
          (\<exists>h' ds. destroy n this h = Some (h', ds) \<and>
             destroyed (h' ! this) \<and> parent (h' ! this) = None \<and>
             (\<forall>p. parent (h ! this) = Some p \<longrightarrow> children (h' ! p) = remove1 this (children (h ! p))) \<and>
             (\<forall>x \<in> descendants h this. destroyed (h' ! x)) \<and>
             distinct ds \<and> set ds = insert this (descendants h this) \<and>
             (\<forall>x < length h. destroyed (h' ! x) \<longleftrightarrow> destroyed (h ! x) \<or> x \<in> set ds) \<and>
             destroy n this h' = Some (h', [])))"
proof (intro conjI impI)
  from n obtain m where m: "n = Suc m" and lm: "length h \<le> m"
    by (cases n) simp_all
  show "destroy n this h = Some (h, [])" if "destroyed (h ! this)"
    using that unfolding m by simp
  assume a: "\<not> destroyed (h ! this) \<and> (\<forall>x \<in> descendants h this. \<not> destroyed (h ! x)) \<and>
          (\<forall>p. parent (h ! this) = Some p \<longrightarrow> this \<in> set (children (h ! p)))"
  then have nd: "\<not> destroyed (h ! this)"
    and dl: "\<And>x. x \<in> descendants h this \<Longrightarrow> \<not> destroyed (h ! x)"
    and pc0: "\<forall>p. parent (h ! this) = Some p \<longrightarrow> this \<in> set (children (h ! p))"
    by blast+
  from pc0 have pc: "this \<in> set (children (h ! p))" if "parent (h ! this) = Some p" for p
    using that by blast
  define h1 where "h1 = h[this := (h ! this)\<lparr>destroyed := True\<rparr>]"
  define h2 where "h2 = (case parent (h1 ! this) of Some p \<Rightarrow> removeChild p this h1 | None \<Rightarrow> h1)"
  note dp = detach_props [OF r t pc0, folded h1_def, folded h2_def]
  note l2 = dp(1) and d2 = dp(2) and c2 = dp(3) and p2 = dp(4)
  let ?E = "childEdges h" and ?E2 = "childEdges h2"
  have sub: "set (children (h2 ! x)) \<subseteq> set (children (h ! x))" if "x < length h" for x
    using c2 [OF that] set_remove1_subset [of this "children (h ! x)"] by (auto split: if_splits)
  have E2E: "?E2 \<subseteq> ?E"
    using sub l2 by (auto simp: childEdges_def)
  have EE2: "(y, z) \<in> ?E2" if "(y, z) \<in> ?E" "z \<noteq> this" for y z
    using that c2 [of y] l2 by (auto simp: childEdges_def)
  have reach: "(this, x) \<in> ?E\<^sup>* \<longleftrightarrow> (this, x) \<in> ?E2\<^sup>*" for x
    using E2E EE2 by (rule reach_without_back_edges)
  note pa2 = dp(5)
  have r2: "refsInRange h2"
    unfolding refsInRange_nth l2
  proof (intro allI impI conjI ballI)
    fix x c assume "x < length h" "c \<in> set (children (h2 ! x))"
    with sub [of x] refsInRange_child [OF r, of x c] show "c < length h"
      by auto
  next
    fix x p assume x: "x < length h" and "parent (h2 ! x) = Some p"
    with pa2 [OF x] have "parent (h ! x) = Some p"
      by auto
    with r x show "p < length h"
      unfolding refsInRange_nth by blast
  qed
  let ?cs = "children (h2 ! this)"
  have csl: "set ?cs \<subseteq> {..<length h2}"
    using refsInRange_child [OF r2, of this] t l2 by auto
  have "card (live h2) < card (live h)"
    using t nd l2 d2 by (rule live_mark)
  with card_live_le [of h] lm have k: "card (live h2) < m"
    by simp
  from destroyChildren_total [OF r2 csl k] obtain h3 ds' where dc: "destroyChildren m ?cs h2 = Some (h3, ds')"
    by auto
  have res: "destroy n this h = Some (h3, this # ds')"
    unfolding m using nd dc by (simp add: Let_def h1_def [symmetric] h2_def [symmetric])
  from destroyChildren_core [OF r2 csl dc] have s: "destroys (set ?cs) h2 h3 ds'"
    and dcs: "\<And>c. c \<in> set ?cs \<Longrightarrow> destroyed (h3 ! c)"
    by simp_all
  note l3 = destroysD(1) [OF s, unfolded l2]
  have d3: "destroyed (h3 ! x) \<longleftrightarrow> destroyed (h ! x) \<or> x \<in> set (this # ds')" if "x < length h" for x
    using destroysD(4) [OF s, of x] d2 [OF that] that l2 by auto
  have dt: "destroyed (h3 ! this)"
    using d3 [OF t] by simp
  have pt: "parent (h3 ! this) = None"
    using destroysD(3) [OF s, of this] t l2 p2 by auto
  have ch: "children (h3 ! p) = remove1 this (children (h ! p))" if "parent (h ! this) = Some p" for p
  proof -
    from r t that have p: "p < length h"
      unfolding refsInRange_nth by blast
    with destroysD(2) [OF s, of p] l2 c2 [OF p] that show ?thesis
      by simp
  qed
  have nt: "this \<notin> set ds'"
    using destroysD(7) [OF s, of this] d2 [OF t] by auto
  have dist: "distinct (this # ds')"
    using nt destroysD(5) [OF s] by simp
  have in_reach: "(this, x) \<in> ?E2\<^sup>*" if "x \<in> set (this # ds')" for x
  proof (cases "x = this")
    case True
    then show ?thesis by simp
  next
    case False
    with that have "x \<in> set ds'" by simp
    from destroysD(9) [OF s this] obtain c where c: "c \<in> set ?cs" "(c, x) \<in> ?E2\<^sup>*"
      by blast
    from c(1) t l2 have "(this, c) \<in> ?E2"
      by (simp add: childEdges_def)
    with c(2) show ?thesis
      by (simp add: converse_rtrancl_into_rtrancl)
  qed
  have reached: "x \<in> set (this # ds')" if "(this, x) \<in> ?E2\<^sup>*" for x
    using that
  proof (induction rule: rtrancl_induct)
    case base
    then show ?case by simp
  next
    case (step y z)
    show ?case
    proof (cases "z = this")
      case True
      then show ?thesis by simp
    next
      case False
      from step.hyps(1,2) have "(this, z) \<in> ?E2\<^sup>*"
        by (rule rtrancl_into_rtrancl)
      then have "z \<in> insert this (descendants h this)"
        unfolding descendants_rtrancl reach .
      with False have lz: "\<not> destroyed (h ! z)"
        by (auto dest: dl)
      from step.hyps(2) have y: "y < length h" and zc: "z \<in> set (children (h2 ! y))"
        unfolding childEdges_def l2 by simp_all
      from refsInRange_child [OF r2, of y z] y zc l2 have z: "z < length h"
        by simp
      have "destroyed (h3 ! z)"
      proof (cases "y = this")
        case True
        with zc show ?thesis by (simp add: dcs)
      next
        case ne: False
        with step.IH have "y \<in> set ds'" by simp
        from destroysD(8) [OF s this zc] show ?thesis by simp
      qed
      with d3 [OF z] lz show ?thesis
        by simp
    qed
  qed
  have sets: "set (this # ds') = insert this (descendants h this)"
  proof (rule set_eqI)
    fix x
    show "x \<in> set (this # ds') \<longleftrightarrow> x \<in> insert this (descendants h this)"
      unfolding descendants_rtrancl reach using in_reach [of x] reached [of x] by blast
  qed
  have dd: "destroyed (h3 ! x)" if "x \<in> descendants h this" for x
  proof -
    from that sets have x: "x \<in> set (this # ds')"
      by blast
    then have "x < length h"
      using t destroysD(6) [OF s, of x] l2 by auto
    from d3 [OF this] x show ?thesis
      by simp
  qed
  have again: "destroy n this h3 = Some (h3, [])"
    unfolding m using dt by simp
  from res dt pt ch dd dist sets d3 again
  show "\<exists>h' ds. destroy n this h = Some (h', ds) \<and>
             destroyed (h' ! this) \<and> parent (h' ! this) = None \<and>
             (\<forall>p. parent (h ! this) = Some p \<longrightarrow> children (h' ! p) = remove1 this (children (h ! p))) \<and>
             (\<forall>x \<in> descendants h this. destroyed (h' ! x)) \<and>
             distinct ds \<and> set ds = insert this (descendants h this) \<and>
             (\<forall>x < length h. destroyed (h' ! x) \<longleftrightarrow> destroyed (h ! x) \<or> x \<in> set ds) \<and>
             destroy n this h' = Some (h', [])"
    by (intro exI [of _ h3] exI [of _ "this # ds'"] conjI allI impI ballI) blast+
qed

theorem destroy_cascade_witness:
  "destroy 6 1 family = Some (familyAfter, [1, 2, 4, 3]) \<and>
   insert 1 (descendants family 1) = {1, 2, 3, 4} \<and>
   destroy 6 1 familyAfter = Some (familyAfter, [])"
proof -
  have e: "destroy 6 1 family = Some (familyAfter, [1, 2, 4, 3])"
    by (simp add: eval_nat_numeral family_def familyAfter_def removeChild_def Let_def b0_def)
  have r: "refsInRange family"
    by (simp add: refsInRange_def family_def b0_def)
  have l: "length family = 5"
    by (simp add: family_def)
  have nd: "\<not> destroyed (family ! x)" if "x < 5" for x
  proof -
    from that have "x = 0 \<or> x = 1 \<or> x = 2 \<or> x = 3 \<or> x = 4" by arith
    then show ?thesis by (auto simp: family_def b0_def)
  qed
  have d: "x < 5" if "x \<in> descendants family 1" for x
  proof -
    from that have "(1, x) \<in> (childEdges family)\<^sup>+"
      by (simp add: descendants_def)
    then obtain y where "(y, x) \<in> childEdges family"
      by (auto dest: tranclD2)
    then have y: "y < 5" and x: "x \<in> set (children (family ! y))"
      by (simp_all add: childEdges_def l)
    from y have "y = 0 \<or> y = 1 \<or> y = 2 \<or> y = 3 \<or> y = 4" by arith
    with x show ?thesis by (auto simp: family_def b0_def)
  qed
  have p: "\<forall>p. parent (family ! 1) = Some p \<longrightarrow> 1 \<in> set (children (family ! p))"
    by (simp add: family_def b0_def)
  from destroy_cascade [OF r, of 1 6] l nd d p e show ?thesis
    by auto
qed

end
